theory Spec2Isabelle
  imports Complex_Main
begin

section \<open>Ant colony optimisation over a weighted directed graph (aco.py)\<close>

text \<open>
  A shallow embedding of the class \<open>ACO\<close> of \<open>aco.py\<close>.

  Numbers. Python floats are idealised: a finite float is a \<open>real\<close> (no rounding, no
  overflow), and the value \<open>float('inf')\<close> is the extra element \<open>Inf\<close> of the type
  \<open>dist\<close>. Edge weights are finite Python numbers, so a division by a distance of
  zero raises \<open>ZeroDivisionError\<close>, as \<open>1.0 / 0.0\<close> does in Python. The exponents
  \<open>alpha\<close> and \<open>beta\<close> are natural numbers (the constructor's defaults are 1 and 2),
  and \<open>n_ants\<close> and \<open>iterations\<close> are natural numbers.

  Errors. Every exception the code can raise is a value of \<open>error\<close>; a function that
  can raise returns \<open>error + 'a\<close>, with \<open>Inl\<close> for the exception. The state an
  exception leaves behind is not kept: no caller in the file catches one.

  Randomness. The random source is a function \<open>rnd\<close> from the number of the draw to a
  natural number, and a counter \<open>k\<close> of the draws made so far. A draw takes \<open>rnd k\<close>
  and picks, among the outcomes that have a positive probability, the one at that index
  modulo their number; the counter goes up by one. So every run the random module allows
  is the run of some \<open>rnd\<close>, and the probabilities themselves are not modelled.

  \<open>print\<close> is left out.
\<close>

subsection \<open>Errors and distances\<close>

datatype error =
    KeyError
  | IndexError
  | ValueError
  | ZeroDivisionError
  | NetworkXNoPath


datatype dist = Fin real | Inf

instantiation dist :: linorder
begin

fun less_eq_dist :: "dist \<Rightarrow> dist \<Rightarrow> bool" where
  "less_eq_dist (Fin a) (Fin b) = (a \<le> b)"
| "less_eq_dist (Fin a) Inf = True"
| "less_eq_dist Inf (Fin b) = False"
| "less_eq_dist Inf Inf = True"

fun less_dist :: "dist \<Rightarrow> dist \<Rightarrow> bool" where
  "less_dist (Fin a) (Fin b) = (a < b)"
| "less_dist (Fin a) Inf = True"
| "less_dist Inf (Fin b) = False"
| "less_dist Inf Inf = False"

instance
proof
  fix x y z :: dist
  show "(x < y) = (x \<le> y \<and> \<not> y \<le> x)"
    by (cases x; cases y) auto
  show "x \<le> x"
    by (cases x) auto
  show "x \<le> y \<Longrightarrow> y \<le> z \<Longrightarrow> x \<le> z"
    by (cases x; cases y; cases z) auto
  show "x \<le> y \<Longrightarrow> y \<le> x \<Longrightarrow> x = y"
    by (cases x; cases y) auto
  show "x \<le> y \<or> y \<le> x"
    by (cases x; cases y) auto
qed

end

text \<open>\<open>x / distance\<close> for a Python number \<open>x\<close> and a float \<open>distance\<close>.\<close>

fun div_dist :: "real \<Rightarrow> dist \<Rightarrow> error + real" where
  "div_dist x Inf = Inr 0"
| "div_dist x (Fin d) = (if d = 0 then Inl ZeroDivisionError else Inr (x / d))"

subsection \<open>The graph (networkx.DiGraph)\<close>

text \<open>
  A \<open>DiGraph\<close> is a dictionary of dictionaries in insertion order: each node is mapped
  to its successors, each successor to the edge's attributes, of which the code reads
  only \<open>weight\<close> (which may be absent).
\<close>

type_synonym 'n graph = "('n \<times> ('n \<times> real option) list) list"

definition nodes :: "'n graph \<Rightarrow> 'n list" where
  "nodes g = map fst g"

definition neighbors :: "'n graph \<Rightarrow> 'n \<Rightarrow> 'n list" where
  "neighbors g u = (case map_of g u of None \<Rightarrow> [] | Some nb \<Rightarrow> map fst nb)"

definition has_edge :: "'n graph \<Rightarrow> 'n \<Rightarrow> 'n \<Rightarrow> bool" where
  "has_edge g u v = (v \<in> set (neighbors g u))"

text \<open>\<open>cities[u][v].get('weight', 0.0)\<close>, read only behind \<open>has_edge\<close>.\<close>

definition get_weight :: "'n graph \<Rightarrow> 'n \<Rightarrow> 'n \<Rightarrow> real" where
  "get_weight g u v =
     (case map_of g u of
        None \<Rightarrow> 0
      | Some nb \<Rightarrow> (case map_of nb v of Some (Some w) \<Rightarrow> w | _ \<Rightarrow> 0))"

subsection \<open>route\_distance\<close>

fun route_distance_loop :: "'n graph \<Rightarrow> 'n list \<Rightarrow> nat list \<Rightarrow> real \<Rightarrow> dist" where
  "route_distance_loop g route [] distance = Fin distance"
| "route_distance_loop g route (i # is) distance =
     (let u = route ! i;
          v = route ! ((i + 1) mod length route)
      in if has_edge g u v
         then route_distance_loop g route is (distance + get_weight g u v)
         else Inf)"

definition route_distance :: "'n graph \<Rightarrow> 'n list \<Rightarrow> dist" where
  "route_distance g route = route_distance_loop g route [0..<length route - 1] 0"

text \<open>
  The distance as the specification words it: the consecutive pairs of the route, first
  to last; the sum of their weights when all of them are edges, infinity otherwise.
\<close>

definition consecutive :: "'n list \<Rightarrow> ('n \<times> 'n) list" where
  "consecutive route = zip route (tl route)"

definition Distance_spec :: "'n graph \<Rightarrow> 'n list \<Rightarrow> dist" where
  "Distance_spec g route =
     (if list_all (\<lambda>(u, v). has_edge g u v) (consecutive route)
      then Fin (sum_list (map (\<lambda>(u, v). get_weight g u v) (consecutive route)))
      else Inf)"

subsection \<open>The solver's state (class ACO)\<close>

text \<open>
  The fields of an \<open>ACO\<close> object. \<open>node_list\<close>, \<open>node_to_idx\<close> and \<open>n_cities\<close> are
  computed once from \<open>cities\<close>, which is never modified, so they are functions of
  \<open>cities\<close> here. \<open>observer\<close> says whether \<open>update_callback\<close> is not \<open>None\<close>; the
  callback itself does not act on the solver. The matrix \<open>pheromone\<close> is read and written
  only at indices taken from \<open>node_to_idx\<close>, and is a function of the two indices.
  \<open>shortest_path\<close> stands for the external \<open>nx.shortest_path(cities, u, v,
  weight="weight")\<close>; \<open>None\<close> is its exception \<open>NetworkXNoPath\<close>.
\<close>

record 'n aco =
  cities :: "'n graph"
  n_ants :: nat
  alpha :: nat
  beta :: nat
  evaporation :: real
  observer :: bool
  pheromone :: "nat \<Rightarrow> nat \<Rightarrow> real"
  shortest_path :: "'n \<Rightarrow> 'n \<Rightarrow> 'n list option"

definition node_to_idx :: "'n graph \<Rightarrow> 'n \<Rightarrow> nat option" where
  "node_to_idx g = map_of (rev (zip (nodes g) [0..<length (nodes g)]))"

text \<open>\<open>nx.to_numpy_array(cities, weight=None)\<close>: 1 where an edge is, 0 elsewhere.\<close>

definition to_numpy_array :: "'n graph \<Rightarrow> nat \<Rightarrow> nat \<Rightarrow> real" where
  "to_numpy_array g =
     (\<lambda>i j. if i < length (nodes g) \<and> j < length (nodes g) \<and>
                has_edge g (nodes g ! i) (nodes g ! j)
             then 1 else 0)"

definition ACO_init ::
  "'n graph \<Rightarrow> nat \<Rightarrow> nat \<Rightarrow> nat \<Rightarrow> real \<Rightarrow> bool \<Rightarrow> ('n \<Rightarrow> 'n \<Rightarrow> 'n list option) \<Rightarrow> 'n aco" where
  "ACO_init g ants a b evap conc sp =
     \<lparr>cities = g, n_ants = ants, alpha = a, beta = b, evaporation = evap,
      observer = (\<not> conc), pheromone = to_numpy_array g, shortest_path = sp\<rparr>"

subsection \<open>update\_pheromones\<close>

fun deposit_loop ::
  "'n graph \<Rightarrow> 'n list \<Rightarrow> dist \<Rightarrow> real \<Rightarrow> nat list \<Rightarrow> (nat \<Rightarrow> nat \<Rightarrow> real)
   \<Rightarrow> error + (nat \<Rightarrow> nat \<Rightarrow> real)" where
  "deposit_loop g route distance pherm_rate [] ph = Inr ph"
| "deposit_loop g route distance pherm_rate (i # is) ph =
     (let u = route ! i;
          v = route ! ((i + 1) mod length route)
      in case node_to_idx g u of
           None \<Rightarrow> Inl KeyError
         | Some u_idx \<Rightarrow>
             (case node_to_idx g v of
                None \<Rightarrow> Inl KeyError
              | Some v_idx \<Rightarrow>
                  if has_edge g u v
                  then (case div_dist pherm_rate distance of
                          Inl e \<Rightarrow> Inl e
                        | Inr x \<Rightarrow>
                            deposit_loop g route distance pherm_rate is
                              (ph(u_idx := (ph u_idx)(v_idx := ph u_idx v_idx + x))))
                  else deposit_loop g route distance pherm_rate is ph))"

definition update_pheromones :: "'n aco \<Rightarrow> 'n list \<Rightarrow> dist \<Rightarrow> real \<Rightarrow> error + 'n aco" where
  "update_pheromones s route distance pherm_rate =
     (if route = [] then Inr s
      else case deposit_loop (cities s) route distance pherm_rate [0..<length route]
                  (\<lambda>i j. pheromone s i j * evaporation s) of
             Inl e \<Rightarrow> Inl e
           | Inr ph \<Rightarrow> Inr (s\<lparr>pheromone := ph\<rparr>))"

text \<open>
  The pairs of matrix indices that a call of \<open>update_pheromones\<close> deposits on: the
  consecutive pairs of the route closed into a cycle that are edges of the graph.
\<close>

definition deposit_at :: "'n graph \<Rightarrow> 'n list \<Rightarrow> nat \<Rightarrow> nat \<Rightarrow> nat \<Rightarrow> bool" where
  "deposit_at g route k i j =
     (has_edge g (route ! k) (route ! ((k + 1) mod length route)) \<and>
      node_to_idx g (route ! k) = Some i \<and>
      node_to_idx g (route ! ((k + 1) mod length route)) = Some j)"

definition on_route :: "'n graph \<Rightarrow> 'n list \<Rightarrow> nat \<Rightarrow> nat \<Rightarrow> bool" where
  "on_route g route i j = list_ex (\<lambda>k. deposit_at g route k i j) [0..<length route]"

subsection \<open>calculate\_probabilities\<close>

fun attraction_loop ::
  "'n aco \<Rightarrow> 'n \<Rightarrow> nat \<Rightarrow> 'n list \<Rightarrow> real list \<Rightarrow> real \<Rightarrow> error + (real list \<times> real)" where
  "attraction_loop s current current_idx [] pheromones tot = Inr (pheromones, tot)"
| "attraction_loop s current current_idx (city # rest) pheromones tot =
     (case node_to_idx (cities s) city of
        None \<Rightarrow> Inl KeyError
      | Some city_idx \<Rightarrow>
          (let pher = pheromone s current_idx city_idx ^ alpha s;
               distance = route_distance (cities s) [current, city]
           in case div_dist 1 distance of
                Inl e \<Rightarrow> Inl e
              | Inr q \<Rightarrow>
                  (let heuristic = q ^ beta s;
                       attraction = pher * heuristic
                   in attraction_loop s current current_idx rest
                        (pheromones @ [attraction]) (tot + attraction))))"

definition calculate_probabilities :: "'n aco \<Rightarrow> 'n \<Rightarrow> 'n list \<Rightarrow> error + real list" where
  "calculate_probabilities s current possible_next =
     (if possible_next = [] then Inr []
      else case node_to_idx (cities s) current of
             None \<Rightarrow> Inl KeyError
           | Some current_idx \<Rightarrow>
               (case attraction_loop s current current_idx possible_next [] 0 of
                  Inl e \<Rightarrow> Inl e
                | Inr (pheromones, tot) \<Rightarrow>
                    if tot = 0
                    then Inr (replicate (length possible_next)
                                (1 / real (length possible_next)))
                    else Inr (map (\<lambda>p. p / tot) pheromones)))"

subsection \<open>Random draws\<close>

definition choice :: "'a list \<Rightarrow> nat \<Rightarrow> error + 'a" where
  "choice seq r = (if seq = [] then Inl IndexError else Inr (seq ! (r mod length seq)))"

definition choices :: "'a list \<Rightarrow> real list \<Rightarrow> nat \<Rightarrow> error + 'a" where
  "choices population weights r =
     (if length weights \<noteq> length population then Inl ValueError
      else if sum_list weights \<le> 0 then Inl ValueError
      else (let support = map fst (filter (\<lambda>(x, w). 0 < w) (zip population weights))
            in if support = [] then Inl ValueError
               else Inr (support ! (r mod length support))))"

datatype 'n draw = Choice "'n list" | Choices "'n list" "real list"

fun sample :: "'n draw \<Rightarrow> nat \<Rightarrow> error + 'n" where
  "sample (Choice seq) r = choice seq r"
| "sample (Choices population weights) r = choices population weights r"

subsection \<open>ant\_tour\<close>

definition possible_next :: "'n graph \<Rightarrow> 'n \<Rightarrow> 'n list \<Rightarrow> 'n list" where
  "possible_next g current unvisited =
     (let pn = filter (\<lambda>n. n \<in> set unvisited) (neighbors g current)
      in if pn = [] then unvisited else pn)"

definition next_draw :: "'n aco \<Rightarrow> 'n \<Rightarrow> 'n list \<Rightarrow> error + 'n draw" where
  "next_draw s current unvisited =
     (let pn = possible_next (cities s) current unvisited
      in case calculate_probabilities s current pn of
           Inl e \<Rightarrow> Inl e
         | Inr probabilities \<Rightarrow>
             if probabilities = [] then Inr (Choice (neighbors (cities s) current))
             else Inr (Choices pn probabilities))"

text \<open>The value of \<open>next_city\<close> in one pass of the loop, drawn with \<open>r\<close>.\<close>

definition select_next :: "'n aco \<Rightarrow> nat \<Rightarrow> 'n \<Rightarrow> 'n list \<Rightarrow> error + 'n" where
  "select_next s r current unvisited =
     (case next_draw s current unvisited of
        Inl e \<Rightarrow> Inl e
      | Inr d \<Rightarrow> sample d r)"

text \<open>One pass of the loop \<open>while unvisited\<close>.\<close>

definition tour_step ::
  "'n aco \<Rightarrow> nat \<Rightarrow> 'n \<Rightarrow> 'n list \<Rightarrow> 'n list \<Rightarrow> error + ('n \<times> 'n list \<times> 'n list)" where
  "tour_step s r current route unvisited =
     (case select_next s r current unvisited of
        Inl e \<Rightarrow> Inl e
      | Inr next_city \<Rightarrow>
          (case (if next_city \<in> set (neighbors (cities s) current)
                 then Inr (route @ [next_city])
                 else (case shortest_path s current next_city of
                         None \<Rightarrow> Inl NetworkXNoPath
                       | Some path \<Rightarrow> Inr (route @ tl path))) of
             Inl e \<Rightarrow> Inl e
           | Inr route' \<Rightarrow>
               Inr (next_city, route',
                    if next_city \<in> set unvisited then removeAll next_city unvisited
                    else unvisited)))"

lemma attraction_loop_length:
  "attraction_loop s current ci cs ps tot = Inr (ps', tot') \<Longrightarrow>
   length ps' = length ps + length cs"
  by (induction cs arbitrary: ps tot) (auto simp: Let_def split: option.splits sum.splits)

lemma calculate_probabilities_length:
  "calculate_probabilities s current pn = Inr ps \<Longrightarrow> length ps = length pn"
  by (auto simp: calculate_probabilities_def attraction_loop_length
           split: if_splits option.splits sum.splits dest: attraction_loop_length)

lemma possible_next_subset:
  "set (possible_next g current unvisited) \<subseteq> set unvisited"
  by (auto simp: possible_next_def Let_def)

lemma possible_next_nonempty:
  "unvisited \<noteq> [] \<Longrightarrow> possible_next g current unvisited \<noteq> []"
  by (auto simp: possible_next_def Let_def)

lemma choices_mem: "choices population weights r = Inr x \<Longrightarrow> x \<in> set population"
proof -
  assume a: "choices population weights r = Inr x"
  let ?sup = "map fst (filter (\<lambda>(x, w). 0 < w) (zip population weights))"
  from a have ne: "?sup \<noteq> []" and x: "x = ?sup ! (r mod length ?sup)"
    by (auto simp: choices_def Let_def split: if_splits)
  from ne have "r mod length ?sup < length ?sup" by simp
  then have "x \<in> set ?sup" unfolding x by (rule nth_mem)
  then show ?thesis by (auto dest: set_zip_leftD)
qed

lemma next_draw_Choices:
  assumes "unvisited \<noteq> []" and "next_draw s current unvisited = Inr d"
  shows "\<exists>ps. d = Choices (possible_next (cities s) current unvisited) ps \<and> ps \<noteq> []"
proof -
  let ?pn = "possible_next (cities s) current unvisited"
  from assms(2) obtain ps where ps: "calculate_probabilities s current ?pn = Inr ps"
     and d: "d = (if ps = [] then Choice (neighbors (cities s) current) else Choices ?pn ps)"
    by (auto simp: next_draw_def Let_def split: sum.splits if_splits)
  have "length ps = length ?pn"
    using ps by (rule calculate_probabilities_length)
  then have "ps \<noteq> []"
    using possible_next_nonempty [OF assms(1)] by auto
  then show ?thesis using d by simp
qed

lemma select_next_unvisited:
  assumes "unvisited \<noteq> []" and "select_next s r current unvisited = Inr x"
  shows "x \<in> set unvisited"
proof -
  from assms(2) obtain d where d: "next_draw s current unvisited = Inr d"
      and smp: "sample d r = Inr x"
    by (auto simp: select_next_def split: sum.splits)
  from next_draw_Choices [OF assms(1) d] obtain ps where
    "d = Choices (possible_next (cities s) current unvisited) ps" by blast
  with smp have "x \<in> set (possible_next (cities s) current unvisited)"
    by (auto dest: choices_mem)
  then show ?thesis
    using possible_next_subset by fastforce
qed

lemma tour_step_unvisited:
  assumes "unvisited \<noteq> []"
    and "tour_step s r current route unvisited = Inr (current', route', unvisited')"
  shows "current' \<in> set unvisited \<and> unvisited' = removeAll current' unvisited"
proof -
  from assms(2) have smp: "select_next s r current unvisited = Inr current'"
      and u: "unvisited' = (if current' \<in> set unvisited then removeAll current' unvisited
                            else unvisited)"
    by (auto simp: tour_step_def split: sum.splits if_splits option.splits)
  from select_next_unvisited [OF assms(1) smp] show ?thesis
    using u by simp
qed

lemma tour_step_shrinks:
  "unvisited \<noteq> [] \<Longrightarrow>
   tour_step s r current route unvisited = Inr (current', route', unvisited') \<Longrightarrow>
   length unvisited' < length unvisited"
  using tour_step_unvisited [of unvisited s r current route current' route' unvisited']
  by (simp add: length_removeAll_less)

function tour_loop ::
  "'n aco \<Rightarrow> (nat \<Rightarrow> nat) \<Rightarrow> nat \<Rightarrow> 'n \<Rightarrow> 'n list \<Rightarrow> 'n list \<Rightarrow> error + ('n list \<times> nat)" where
  "tour_loop s rnd k current route unvisited =
     (if unvisited = [] then Inr (route, k)
      else (case tour_step s (rnd k) current route unvisited of
              Inl e \<Rightarrow> Inl e
            | Inr (current', route', unvisited') \<Rightarrow>
                tour_loop s rnd (Suc k) current' route' unvisited'))"
  by pat_completeness auto
termination
  by (relation "measure (\<lambda>(s, rnd, k, current, route, unvisited). length unvisited)")
     (auto dest: tour_step_shrinks)

definition ant_tour :: "'n aco \<Rightarrow> (nat \<Rightarrow> nat) \<Rightarrow> nat \<Rightarrow> error + ('n list \<times> nat)" where
  "ant_tour s rnd k =
     (let unvisited = remdups (nodes (cities s))
      in if unvisited = [] then Inr ([], k)
         else (case choice unvisited (rnd k) of
                 Inl e \<Rightarrow> Inl e
               | Inr current \<Rightarrow>
                   tour_loop s rnd (Suc k) current [current] (removeAll current unvisited)))"

text \<open>\<open>n\<close> passes of the body of the loop \<open>while unvisited\<close>, one after the other.\<close>

fun tour_passes ::
  "'n aco \<Rightarrow> (nat \<Rightarrow> nat) \<Rightarrow> nat \<Rightarrow> nat \<Rightarrow> 'n \<Rightarrow> 'n list \<Rightarrow> 'n list
   \<Rightarrow> error + (nat \<times> 'n \<times> 'n list \<times> 'n list)" where
  "tour_passes s rnd 0 k current route unvisited = Inr (k, current, route, unvisited)"
| "tour_passes s rnd (Suc n) k current route unvisited =
     (case tour_step s (rnd k) current route unvisited of
        Inl e \<Rightarrow> Inl e
      | Inr (current', route', unvisited') \<Rightarrow>
          tour_passes s rnd n (Suc k) current' route' unvisited')"

subsection \<open>construct\_solution\<close>

text \<open>The slice assignment \<open>xs[i+1:] = xs[i:-1]\<close>.\<close>

definition shift_right :: "nat \<Rightarrow> 'a list \<Rightarrow> 'a list" where
  "shift_right i xs = take (i + 1) xs @ drop i (butlast xs)"

lemma length_shift_right: "i < length xs - 1 \<Longrightarrow> length (shift_right i xs) = length xs"
  by (auto simp: shift_right_def)

text \<open>
  The loop \<open>for i, best_distance in enumerate(best_distances)\<close>. The list iterator
  reads the list as it is at each step, so an entry written at step \<open>i\<close> is the one
  compared at a later step.
\<close>

function offer_loop ::
  "'n list \<Rightarrow> dist \<Rightarrow> nat \<Rightarrow> 'n list list \<times> dist list \<Rightarrow> error + ('n list list \<times> dist list)" where
  "offer_loop route distance i (best_routes, best_distances) =
     (if i < length best_distances
      then (if distance < best_distances ! i
            then (let ds = (if i < length best_distances - 1
                            then shift_right i best_distances else best_distances);
                      rs = (if i < length best_distances - 1
                            then shift_right i best_routes else best_routes)
                  in if i < length rs
                     then offer_loop route distance (i + 1) (rs[i := route], ds[i := distance])
                     else Inl IndexError)
            else offer_loop route distance (i + 1) (best_routes, best_distances))
      else Inr (best_routes, best_distances))"
  by pat_completeness auto
termination
  by (relation "measure (\<lambda>(route, distance, i, best_routes, best_distances).
                  length best_distances - i)")
     (auto simp: length_shift_right)

declare offer_loop.simps [simp del]

definition py_min :: "dist list \<Rightarrow> error + dist" where
  "py_min xs = (case xs of [] \<Rightarrow> Inl ValueError | x # rest \<Rightarrow> Inr (fold min rest x))"

fun add_dist :: "dist \<Rightarrow> dist \<Rightarrow> dist" where
  "add_dist (Fin a) (Fin b) = Fin (a + b)"
| "add_dist _ _ = Inf"

definition py_avg :: "dist list \<Rightarrow> error + dist" where
  "py_avg xs =
     (if xs = [] then Inl ZeroDivisionError
      else Inr (case fold (\<lambda>x acc. add_dist acc x) xs (Fin 0) of
                  Inf \<Rightarrow> Inf
                | Fin t \<Rightarrow> Fin (t / real (length xs))))"

fun seed_loop :: "'n aco \<Rightarrow> 'n list list \<Rightarrow> dist list \<Rightarrow> error + ('n aco \<times> dist list)" where
  "seed_loop s [] best_distances = Inr (s, best_distances)"
| "seed_loop s (prev_route # rest) best_distances =
     (case update_pheromones s prev_route (route_distance (cities s) prev_route) 10 of
        Inl e \<Rightarrow> Inl e
      | Inr s' \<Rightarrow>
          seed_loop s' rest (best_distances @ [route_distance (cities s') prev_route]))"

fun ants_loop ::
  "nat \<Rightarrow> 'n aco \<Rightarrow> (nat \<Rightarrow> nat) \<Rightarrow> nat \<Rightarrow> 'n list list \<times> dist list
   \<Rightarrow> error + ('n aco \<times> nat \<times> 'n list list \<times> dist list)" where
  "ants_loop 0 s rnd k best = Inr (s, k, best)"
| "ants_loop (Suc m) s rnd k best =
     (case ant_tour s rnd k of
        Inl e \<Rightarrow> Inl e
      | Inr (route, k') \<Rightarrow>
          if route = [] then ants_loop m s rnd k' best
          else (let distance = route_distance (cities s) route
                in case offer_loop route distance 0 best of
                     Inl e \<Rightarrow> Inl e
                   | Inr best' \<Rightarrow>
                       (case update_pheromones s route distance 1 of
                          Inl e \<Rightarrow> Inl e
                        | Inr s' \<Rightarrow> ants_loop m s' rnd k' best')))"

fun iterations_loop ::
  "nat \<Rightarrow> 'n aco \<Rightarrow> (nat \<Rightarrow> nat) \<Rightarrow> nat \<Rightarrow> 'n list list \<times> dist list \<Rightarrow> dist list \<times> dist list
   \<Rightarrow> error + ('n aco \<times> nat \<times> ('n list list \<times> dist list) \<times> (dist list \<times> dist list))" where
  "iterations_loop 0 s rnd k best history = Inr (s, k, best, history)"
| "iterations_loop (Suc it) s rnd k best (best_acos, avg_acos) =
     (case ants_loop (n_ants s) s rnd k best of
        Inl e \<Rightarrow> Inl e
      | Inr (s', k', best_routes, best_distances) \<Rightarrow>
          if observer s' \<and> (best_routes = [] \<or> best_distances = []) then Inl IndexError
          else (case py_min best_distances of
                  Inl e \<Rightarrow> Inl e
                | Inr m \<Rightarrow>
                    (case py_avg best_distances of
                       Inl e \<Rightarrow> Inl e
                     | Inr a \<Rightarrow>
                         iterations_loop it s' rnd k' (best_routes, best_distances)
                           (best_acos @ [m], avg_acos @ [a]))))"

text \<open>Lines 21 to 33: the archive before the first iteration.\<close>

definition seed_archive ::
  "'n aco \<Rightarrow> 'n list list \<Rightarrow> error + ('n aco \<times> 'n list list \<times> dist list)" where
  "seed_archive s routes =
     (if routes \<noteq> []
      then (case seed_loop s routes [] of
              Inl e \<Rightarrow> Inl e
            | Inr (s', best_distances) \<Rightarrow>
                Inr (s', take (n_ants s') routes, take (n_ants s') best_distances))
      else Inr (s, replicate (n_ants s) [], replicate (n_ants s) Inf))"

definition construct_solution ::
  "'n aco \<Rightarrow> (nat \<Rightarrow> nat) \<Rightarrow> nat \<Rightarrow> nat \<Rightarrow> 'n list list
   \<Rightarrow> error + (('n list list \<times> dist list \<times> (dist list \<times> dist list)) \<times> 'n aco \<times> nat)" where
  "construct_solution s rnd k iterations routes =
     (case seed_archive s routes of
        Inl e \<Rightarrow> Inl e
      | Inr (s', best) \<Rightarrow>
          (case iterations_loop iterations s' rnd k best ([], []) of
             Inl e \<Rightarrow> Inl e
           | Inr (s'', k', (best_routes, best_distances), history) \<Rightarrow>
               Inr ((best_routes, best_distances, history), s'', k')))"

text \<open>A sequence of offers to the archive, each one the loop of lines 42 to 48.\<close>

fun offer_all ::
  "('n list \<times> dist) list \<Rightarrow> 'n list list \<times> dist list \<Rightarrow> error + ('n list list \<times> dist list)" where
  "offer_all [] best = Inr best"
| "offer_all ((route, distance) # rest) best =
     (case offer_loop route distance 0 best of
        Inl e \<Rightarrow> Inl e
      | Inr best' \<Rightarrow> offer_all rest best')"

text \<open>
  The seeding as the specification words it: one reinforcement for each supplied route,
  with the route's own distance and the deposit rate 10.
\<close>

fun reinforce_all :: "'n aco \<Rightarrow> 'n list list \<Rightarrow> error + 'n aco" where
  "reinforce_all s [] = Inr s"
| "reinforce_all s (route # rest) =
     (case update_pheromones s route (route_distance (cities s) route) 10 of
        Inl e \<Rightarrow> Inl e
      | Inr s' \<Rightarrow> reinforce_all s' rest)"

subsection \<open>run\_aco\<close>


subsection \<open>Example graphs\<close>

datatype city = A | B | C

definition g3 :: "city graph" where
  "g3 = [(A, [(B, Some 1)]), (B, [(C, Some 3), (A, Some 3)]), (C, [(B, Some 2)])]"

fun sp3 :: "city \<Rightarrow> city \<Rightarrow> city list option" where
  "sp3 A C = Some [A, B, C]"
| "sp3 C A = Some [C, B, A]"
| "sp3 u v = (if u = v then Some [u] else Some [u, v])"

definition aco3 :: "city aco" where
  "aco3 = ACO_init g3 2 1 2 (1 / 2) False sp3"

definition g0 :: "city graph" where
  "g0 = [(A, [(B, Some 0)]), (B, [])]"

fun sp0 :: "city \<Rightarrow> city \<Rightarrow> city list option" where
  "sp0 A B = Some [A, B]"
| "sp0 u v = (if u = v then Some [u] else None)"

definition aco0 :: "city aco" where
  "aco0 = ACO_init g0 1 1 2 (1 / 2) False sp0"

definition g1 :: "city graph" where
  "g1 = [(A, [(B, Some 1)]), (B, [])]"

definition aco1 :: "city aco" where
  "aco1 = ACO_init g1 1 1 2 (1 / 2) False sp0"

definition g4 :: "city graph" where
  "g4 = [(A, [(B, Some 1)]), (B, []), (C, [])]"

definition aco4 :: "city aco" where
  "aco4 = ACO_init g4 1 1 2 (1 / 2) False sp0"

lemmas ex_defs = g3_def aco3_def g0_def aco0_def g1_def aco1_def g4_def aco4_def ACO_init_def
  to_numpy_array_def nodes_def neighbors_def has_edge_def get_weight_def node_to_idx_def

lemmas tour_defs = ant_tour_def tour_step_def select_next_def next_draw_def
  calculate_probabilities_def possible_next_def choice_def choices_def route_distance_def Let_def


section \<open>Properties\<close>

subsection \<open>route\_distance\<close>

lemma consecutive_drop:
  assumes "Suc i < length route"
  shows "zip (drop i route) (drop (Suc i) route) =
         (route ! i, route ! Suc i) # zip (drop (Suc i) route) (drop (Suc (Suc i)) route)"
proof -
  have a: "drop i route = route ! i # drop (Suc i) route"
    using assms by (simp add: Cons_nth_drop_Suc)
  have b: "drop (Suc i) route = route ! Suc i # drop (Suc (Suc i)) route"
    using assms by (simp add: Cons_nth_drop_Suc)
  show ?thesis
    by (subst a, subst b) simp
qed

lemma route_distance_loop_from:
  "i \<le> length route - 1 \<Longrightarrow>
   route_distance_loop g route [i..<length route - 1] acc =
     (if list_all (\<lambda>(u, v). has_edge g u v) (zip (drop i route) (drop (Suc i) route))
      then Fin (acc + sum_list (map (\<lambda>(u, v). get_weight g u v)
                                   (zip (drop i route) (drop (Suc i) route))))
      else Inf)"
proof (induction "length route - 1 - i" arbitrary: i acc)
  case 0
  then have "i = length route - 1" by simp
  then show ?case by simp
next
  case (Suc k)
  then have lt: "Suc i < length route" by simp
  then have m: "Suc i mod length route = Suc i" by simp
  have u: "[i..<length route - 1] = i # [Suc i..<length route - 1]"
    using lt by (simp add: upt_conv_Cons)
  have k: "k = length route - 1 - Suc i" using Suc.hyps(2) by simp
  have le: "Suc i \<le> length route - 1" using lt by simp
  have step: "route_distance_loop g route [i..<length route - 1] acc =
      (if has_edge g (route ! i) (route ! Suc i)
       then route_distance_loop g route [Suc i..<length route - 1]
              (acc + get_weight g (route ! i) (route ! Suc i))
       else Inf)"
    by (subst u) (simp add: m Let_def)
  show ?case
    unfolding step Suc.hyps(1) [OF k le] consecutive_drop [OF lt]
    by (simp add: add.assoc)
qed

text \<open>
  C3. For every graph and every route, \<open>route_distance\<close> is the sum of the weights of
  the edges between consecutive route nodes, first to last and with no edge from the
  last node back to the first, and it is infinite whenever some consecutive pair is not
  an edge of the graph. The result depends on the graph and the route only.
\<close>

theorem route_distance_spec:
  "route_distance g route = Distance_spec g route"
  using route_distance_loop_from [of 0 route g 0]
  by (simp add: route_distance_def Distance_spec_def consecutive_def drop_Suc)

subsection \<open>update\_pheromones\<close>


lemma div_dist_nonneg:
  "div_dist x d = Inr q \<Longrightarrow> 0 \<le> x \<Longrightarrow> Fin 0 \<le> d \<Longrightarrow> 0 \<le> q"
  by (cases d) (auto split: if_splits)

lemma deposit_loop_mono:
  "deposit_loop g route distance rate ks ph = Inr ph' \<Longrightarrow>
   div_dist rate distance = Inr x \<Longrightarrow> 0 \<le> x \<Longrightarrow> ph i j \<le> ph' i j"
proof (induction ks arbitrary: ph)
  case Nil
  then show ?case by simp
next
  case (Cons k ks)
  show ?case
  proof (cases "has_edge g (route ! k) (route ! ((k + 1) mod length route))")
    case True
    with Cons.prems obtain a b where
      rec: "deposit_loop g route distance rate ks (ph(a := (ph a)(b := ph a b + x))) = Inr ph'"
      by (auto simp: Let_def split: option.splits)
    have "ph i j \<le> (ph(a := (ph a)(b := ph a b + x))) i j"
      using Cons.prems(3) by simp
    also have "\<dots> \<le> ph' i j"
      by (rule Cons.IH [OF rec Cons.prems(2,3)])
    finally show ?thesis .
  next
    case False
    with Cons.prems have "deposit_loop g route distance rate ks ph = Inr ph'"
      by (auto simp: Let_def split: option.splits)
    then show ?thesis
      by (rule Cons.IH [OF _ Cons.prems(2,3)])
  qed
qed

lemma deposit_loop_off:
  "deposit_loop g route distance rate ks ph = Inr ph' \<Longrightarrow>
   \<forall>k\<in>set ks. \<not> deposit_at g route k i j \<Longrightarrow> ph' i j = ph i j"
proof (induction ks arbitrary: ph)
  case Nil
  then show ?case by simp
next
  case (Cons k ks)
  then show ?case
    by (auto simp: Let_def deposit_at_def split: option.splits if_splits sum.splits)
qed

lemma deposit_loop_on:
  "deposit_loop g route distance rate ks ph = Inr ph' \<Longrightarrow>
   div_dist rate distance = Inr x \<Longrightarrow> 0 \<le> x \<Longrightarrow>
   k \<in> set ks \<Longrightarrow> deposit_at g route k i j \<Longrightarrow> ph i j + x \<le> ph' i j"
proof (induction ks arbitrary: ph)
  case Nil
  then show ?case by simp
next
  case (Cons a ks)
  show ?case
  proof (cases "a = k")
    case True
    with Cons.prems have
      rec: "deposit_loop g route distance rate ks (ph(i := (ph i)(j := ph i j + x))) = Inr ph'"
      by (auto simp: Let_def deposit_at_def split: option.splits)
    show ?thesis
      using deposit_loop_mono [OF rec Cons.prems(2,3), of i j] by simp
  next
    case False
    then have mem: "k \<in> set ks" using Cons.prems(4) by simp
    show ?thesis
    proof (cases "has_edge g (route ! a) (route ! ((a + 1) mod length route))")
      case True
      with Cons.prems obtain u v where
        rec: "deposit_loop g route distance rate ks (ph(u := (ph u)(v := ph u v + x))) = Inr ph'"
        by (auto simp: Let_def split: option.splits)
      have "ph i j + x \<le> (ph(u := (ph u)(v := ph u v + x))) i j + x"
        using Cons.prems(3) by simp
      also have "\<dots> \<le> ph' i j"
        by (rule Cons.IH [OF rec Cons.prems(2,3) mem Cons.prems(5)])
      finally show ?thesis .
    next
      case False
      with Cons.prems have "deposit_loop g route distance rate ks ph = Inr ph'"
        by (auto simp: Let_def split: option.splits)
      then show ?thesis
        by (rule Cons.IH [OF _ Cons.prems(2,3) mem Cons.prems(5)])
    qed
  qed
qed

lemma node_to_idx_dom: "(node_to_idx g u \<noteq> None) = (u \<in> set (nodes g))"
proof -
  have "dom (node_to_idx g) = set (nodes g)"
    by (simp add: node_to_idx_def dom_map_of_conv_image_fst flip: set_map)
  then show ?thesis by (auto simp: dom_def)
qed

lemma route_nth_in:
  assumes "k < length route" "set route \<subseteq> S"
  shows "route ! k \<in> S" "route ! ((k + 1) mod length route) \<in> S"
proof -
  have "(k + 1) mod length route < length route"
    using assms(1) by (intro mod_less_divisor) auto
  then have "route ! ((k + 1) mod length route) \<in> set route"
    by (rule nth_mem)
  then show "route ! ((k + 1) mod length route) \<in> S"
    using assms(2) by blast
  show "route ! k \<in> S"
    using assms nth_mem by blast
qed

lemma deposit_loop_ok:
  "div_dist rate distance = Inr x \<Longrightarrow> set route \<subseteq> set (nodes g) \<Longrightarrow>
   \<forall>k\<in>set ks. k < length route \<Longrightarrow>
   \<exists>ph'. deposit_loop g route distance rate ks ph = Inr ph'"
proof (induction ks arbitrary: ph)
  case Nil
  then show ?case by simp
next
  case (Cons k ks)
  have k: "k < length route" using Cons.prems(3) by simp
  then have "route ! k \<in> set (nodes g)" "route ! ((k + 1) mod length route) \<in> set (nodes g)"
    using route_nth_in [OF k Cons.prems(2)] by blast+
  then obtain a b where "node_to_idx g (route ! k) = Some a"
      "node_to_idx g (route ! ((k + 1) mod length route)) = Some b"
    using node_to_idx_dom [of g] by fastforce
  then show ?case
    using Cons.IH [OF Cons.prems(1,2)] Cons.prems(1,3)
    by (simp add: Let_def)
qed

lemma deposit_loop_Inf:
  "deposit_loop g route Inf rate ks ph = Inr ph' \<Longrightarrow> ph' = ph"
  by (induction ks arbitrary: ph) (auto simp: Let_def split: option.splits if_splits)

lemma deposit_loop_zero:
  "set route \<subseteq> set (nodes g) \<Longrightarrow> \<forall>k\<in>set ks. k < length route \<Longrightarrow>
   \<exists>k\<in>set ks. has_edge g (route ! k) (route ! ((k + 1) mod length route)) \<Longrightarrow>
   deposit_loop g route (Fin 0) rate ks ph = Inl ZeroDivisionError"
proof (induction ks arbitrary: ph)
  case Nil
  then show ?case by simp
next
  case (Cons k ks)
  have k: "k < length route" using Cons.prems(2) by simp
  then have "route ! k \<in> set (nodes g)" "route ! ((k + 1) mod length route) \<in> set (nodes g)"
    using route_nth_in [OF k Cons.prems(1)] by blast+
  then obtain a b where "node_to_idx g (route ! k) = Some a"
      "node_to_idx g (route ! ((k + 1) mod length route)) = Some b"
    using node_to_idx_dom [of g] by fastforce
  then show ?case
    using Cons.IH [OF Cons.prems(1)] Cons.prems(2,3)
    by (auto simp: Let_def)
qed


lemma deposit_loop_noedge:
  "set route \<subseteq> set (nodes g) \<Longrightarrow> \<forall>k\<in>set ks. k < length route \<Longrightarrow>
   \<forall>k\<in>set ks. \<not> has_edge g (route ! k) (route ! ((k + 1) mod length route)) \<Longrightarrow>
   deposit_loop g route distance rate ks ph = Inr ph"
proof (induction ks arbitrary: ph)
  case Nil
  then show ?case by simp
next
  case (Cons k ks)
  have k: "k < length route" using Cons.prems(2) by simp
  then have "route ! k \<in> set (nodes g)" "route ! ((k + 1) mod length route) \<in> set (nodes g)"
    using route_nth_in [OF k Cons.prems(1)] by blast+
  then obtain a b where "node_to_idx g (route ! k) = Some a"
      "node_to_idx g (route ! ((k + 1) mod length route)) = Some b"
    using node_to_idx_dom [of g] by fastforce
  then show ?case
    using Cons.IH [OF Cons.prems(1)] Cons.prems(2,3)
    by (auto simp: Let_def)
qed

text \<open>
  C1, as amended. \<open>update_pheromones\<close> first multiplies every entry of the matrix by
  the evaporation factor and then deposits. For a nonempty route over nodes of the
  graph, a positive finite distance and a deposit rate that is not negative, the call
  returns; every entry on an edge of the route closed into a cycle is at least its
  evaporated value plus \<open>pherm_rate / distance\<close>, and every other entry is exactly its
  evaporated value.
\<close>

theorem update_pheromones_entries:
  assumes "route \<noteq> []" and "set route \<subseteq> set (nodes (cities s))"
    and "0 < d" and "0 \<le> rate"
  shows "\<exists>s'. update_pheromones s route (Fin d) rate = Inr s' \<and>
     (\<forall>i j. on_route (cities s) route i j \<longrightarrow>
        pheromone s i j * evaporation s + rate / d \<le> pheromone s' i j) \<and>
     (\<forall>i j. \<not> on_route (cities s) route i j \<longrightarrow>
        pheromone s' i j = pheromone s i j * evaporation s)"
proof -
  let ?ph = "\<lambda>i j. pheromone s i j * evaporation s"
  have dv: "div_dist rate (Fin d) = Inr (rate / d)"
    using assms(3) by simp
  have x: "0 \<le> rate / d"
    using assms(3,4) by simp
  obtain ph' where
    ph': "deposit_loop (cities s) route (Fin d) rate [0..<length route] ?ph = Inr ph'"
    using deposit_loop_ok [OF dv assms(2), of "[0..<length route]" ?ph] by auto
  have upd: "update_pheromones s route (Fin d) rate = Inr (s\<lparr>pheromone := ph'\<rparr>)"
    using assms(1) ph' by (simp add: update_pheromones_def)
  have on: "?ph i j + rate / d \<le> ph' i j" if "on_route (cities s) route i j" for i j
  proof -
    from that obtain k where "k \<in> set [0..<length route]" "deposit_at (cities s) route k i j"
      unfolding on_route_def list_ex_iff by blast
    then show ?thesis
      using deposit_loop_on [OF ph' dv x] by blast
  qed
  have off: "ph' i j = ?ph i j" if "\<not> on_route (cities s) route i j" for i j
  proof -
    from that have "\<forall>k\<in>set [0..<length route]. \<not> deposit_at (cities s) route k i j"
      unfolding on_route_def list_ex_iff by blast
    then show ?thesis
      using deposit_loop_off [OF ph'] by blast
  qed
  show ?thesis
    using upd on off by simp
qed

theorem update_pheromones_entries_witness:
  "[A, B] \<noteq> [] \<and> set [A, B] \<subseteq> set (nodes (cities aco3)) \<and>
   (\<exists>s'. update_pheromones aco3 [A, B] (Fin 10) 1 = Inr s' \<and>
      pheromone aco3 0 1 * evaporation aco3 + 1 / 10 \<le> pheromone s' 0 1 \<and>
      pheromone s' 1 2 = pheromone aco3 1 2 * evaporation aco3)"
proof -
  have h1: "[A, B] \<noteq> []" by simp
  have h2: "set [A, B] \<subseteq> set (nodes (cities aco3))" by (simp add: ex_defs)
  have on: "on_route (cities aco3) [A, B] 0 1"
    by (simp add: on_route_def deposit_at_def ex_defs)
  have off: "\<not> on_route (cities aco3) [A, B] 1 2"
    by (simp add: on_route_def deposit_at_def ex_defs)
  show ?thesis
    using update_pheromones_entries [OF h1 h2, of 10 1] h1 h2 on off by auto
qed

text \<open>
  The claim as stated fails: on the route \<open>[B, C]\<close> of distance 3 the entry of the
  route's edge \<open>(B, C)\<close> falls from 1 to 5/6, and the entry of \<open>(A, B)\<close>, which is
  not on the route, falls from 1 to 1/2.
\<close>

theorem update_pheromones_entries_counterexample:
  "route_distance g3 [B, C] = Fin 3 \<and>
   pheromone aco3 1 2 = 1 \<and> pheromone aco3 0 1 = 1 \<and>
   map_sum id (\<lambda>s'. (pheromone s' 1 2, pheromone s' 0 1))
     (update_pheromones aco3 [B, C] (Fin 3) 1) = Inr (5 / 6, 1 / 2)"
  by (simp add: update_pheromones_def route_distance_def Let_def ex_defs)

text \<open>
  C4, as amended. \<open>update_pheromones\<close> has no guard on the distance. For a nonempty
  route over nodes of the graph, when the distance is infinite, or when no consecutive
  pair of the route closed into a cycle is an edge of the graph, no error is raised and
  nothing is deposited: the matrix is its evaporated value, every entry multiplied by
  the evaporation factor.
\<close>

theorem update_pheromones_unguarded:
  assumes "route \<noteq> []" and "set route \<subseteq> set (nodes (cities s))"
    and "distance = Inf \<or>
         (\<forall>k<length route. \<not> has_edge (cities s) (route ! k) (route ! ((k + 1) mod length route)))"
  shows "update_pheromones s route distance rate =
           Inr (s\<lparr>pheromone := \<lambda>i j. pheromone s i j * evaporation s\<rparr>)"
proof -
  let ?ph = "\<lambda>i j. pheromone s i j * evaporation s"
  have "deposit_loop (cities s) route distance rate [0..<length route] ?ph = Inr ?ph"
    using assms(3)
  proof
    assume inf: "distance = Inf"
    have "div_dist rate Inf = Inr 0" by simp
    from deposit_loop_ok [OF this assms(2), of "[0..<length route]" ?ph]
    obtain ph' where ph': "deposit_loop (cities s) route Inf rate [0..<length route] ?ph = Inr ph'"
      by auto
    then show ?thesis
      using deposit_loop_Inf [OF ph'] inf by simp
  next
    assume "\<forall>k<length route. \<not> has_edge (cities s) (route ! k) (route ! ((k + 1) mod length route))"
    then show ?thesis
      using deposit_loop_noedge [OF assms(2), of "[0..<length route]"] by simp
  qed
  then show ?thesis
    using assms(1) by (simp add: update_pheromones_def)
qed

theorem update_pheromones_unguarded_witness:
  "update_pheromones aco3 [A, B] Inf 1 =
     Inr (aco3\<lparr>pheromone := \<lambda>i j. pheromone aco3 i j * (1 / 2)\<rparr>) \<and>
   update_pheromones aco3 [A] (Fin 0) 1 =
     Inr (aco3\<lparr>pheromone := \<lambda>i j. pheromone aco3 i j * (1 / 2)\<rparr>)"
proof -
  have h1: "[A, B] \<noteq> []" "[A] \<noteq> []" by simp_all
  have h2: "set [A, B] \<subseteq> set (nodes (cities aco3))" "set [A] \<subseteq> set (nodes (cities aco3))"
    by (simp_all add: ex_defs)
  have h3: "\<forall>k<length [A]. \<not> has_edge (cities aco3) ([A] ! k) ([A] ! ((k + 1) mod length [A]))"
    by (simp add: ex_defs)
  have ev: "evaporation aco3 = 1 / 2" by (simp add: ex_defs)
  show ?thesis
    using update_pheromones_unguarded [OF h1(1) h2(1), of Inf 1]
      update_pheromones_unguarded [OF h1(2) h2(2), of "Fin 0" 1] h3
    by (simp add: ev)
qed

text \<open>
  The claim as stated fails: with an infinite distance the entry of \<open>(A, B)\<close> is
  halved, and with the distance 0 the call raises \<open>ZeroDivisionError\<close>.
\<close>

theorem update_pheromones_unguarded_counterexample:
  "pheromone aco3 0 1 = 1 \<and>
   map_sum id (\<lambda>s'. pheromone s' 0 1) (update_pheromones aco3 [A, B] Inf 1) = Inr (1 / 2) \<and>
   update_pheromones aco3 [A, B] (Fin 0) 1 = Inl ZeroDivisionError"
  by (simp add: update_pheromones_def Let_def ex_defs)

subsection \<open>calculate\_probabilities\<close>

lemma route_distance_pair:
  "route_distance g [u, v] = (if has_edge g u v then Fin (get_weight g u v) else Inf)"
  by (simp add: route_distance_def Let_def)






subsection \<open>ant\_tour\<close>

lemma attraction_loop_append:
  "attraction_loop s current ci cs ps tot = Inr (ps', tot') \<Longrightarrow>
   \<exists>ws. ps' = ps @ ws \<and> tot' = tot + sum_list ws"
proof (induction cs arbitrary: ps tot)
  case Nil
  then show ?case by simp
next
  case (Cons city cs)
  then show ?case
    by (fastforce simp: Let_def split: option.splits sum.splits)
qed

lemma choices_uniform:
  assumes "pn \<noteq> []"
  shows "choices pn (replicate (length pn) (1 / real (length pn))) r = Inr (pn ! (r mod length pn))"
proof -
  let ?c = "1 / real (length pn)"
  have c: "0 < ?c" using assms by simp
  have sum: "sum_list (replicate (length pn) ?c) = 1"
    using assms by (simp add: sum_list_replicate)
  have "filter (\<lambda>(x, w). 0 < w) (zip pn (replicate (length pn) ?c)) = zip pn (replicate (length pn) ?c)"
    using c by (intro filter_True) (auto dest!: set_zip_rightD)
  then have sup: "map fst (filter (\<lambda>(x, w). 0 < w) (zip pn (replicate (length pn) ?c))) = pn"
    by simp
  show ?thesis
    using assms by (simp add: choices_def sum sup Let_def del: replicate.simps)
qed

text \<open>
  C7, as amended. When the loop body runs (\<open>unvisited\<close> is not empty) and the selection
  weights of all candidates are zero, \<open>calculate_probabilities\<close> gives every candidate
  the probability \<open>1/|candidates|\<close>, and the next node is drawn with
  \<open>random.choices\<close> among the candidates with these weights: it is a candidate, so an
  unvisited node. The draw among the neighbours is not made.
\<close>

theorem next_draw_zero_weights:
  assumes "unvisited \<noteq> []"
    and "node_to_idx (cities s) current = Some ci"
    and "attraction_loop s current ci (possible_next (cities s) current unvisited) [] 0 =
           Inr (ws, tot)"
    and "\<forall>w\<in>set ws. w = 0"
    and "pn = possible_next (cities s) current unvisited"
  shows "calculate_probabilities s current pn =
           Inr (replicate (length pn) (1 / real (length pn))) \<and>
         next_draw s current unvisited =
           Inr (Choices pn (replicate (length pn) (1 / real (length pn)))) \<and>
         (\<forall>r. select_next s r current unvisited = Inr (pn ! (r mod length pn)) \<and>
              pn ! (r mod length pn) \<in> set unvisited)"
proof -
  have ne: "pn \<noteq> []"
    using assms(1,5) by (simp add: possible_next_nonempty)
  from attraction_loop_append [OF assms(3)] have "tot = sum_list ws" by simp
  also have "\<dots> = 0"
    using assms(4) by (induction ws) auto
  finally have tot: "tot = 0" .
  have cp: "calculate_probabilities s current pn =
      Inr (replicate (length pn) (1 / real (length pn)))"
    using assms(2,3) ne tot by (simp add: calculate_probabilities_def assms(5))
  have nd: "next_draw s current unvisited =
      Inr (Choices pn (replicate (length pn) (1 / real (length pn))))"
    using cp ne by (simp add: next_draw_def assms(5) Let_def)
  have sel: "select_next s r current unvisited = Inr (pn ! (r mod length pn))" for r
    using nd choices_uniform [OF ne] by (simp add: select_next_def)
  have "pn ! (r mod length pn) \<in> set unvisited" for r
    using select_next_unvisited [OF assms(1) sel] .
  with cp nd sel show ?thesis by blast
qed

theorem next_draw_zero_weights_witness:
  "attraction_loop aco3 A 0 [C] [] 0 = Inr ([0], 0) \<and>
   possible_next (cities aco3) A [C] = [C] \<and>
   calculate_probabilities aco3 A [C] = Inr [1] \<and>
   next_draw aco3 A [C] = Inr (Choices [C] [1]) \<and>
   select_next aco3 7 A [C] = Inr C"
proof -
  have h1: "[C] \<noteq> []" by simp
  have h2: "node_to_idx (cities aco3) A = Some 0" by (simp add: ex_defs)
  have pn: "possible_next (cities aco3) A [C] = [C]"
    by (simp add: possible_next_def ex_defs)
  have h3: "attraction_loop aco3 A 0 (possible_next (cities aco3) A [C]) [] 0 = Inr ([0], 0)"
    unfolding pn by (simp add: route_distance_def Let_def ex_defs)
  have h4: "\<forall>w\<in>set [0::real]. w = 0" by simp
  show ?thesis
    using next_draw_zero_weights [OF h1 h2 h3 h4 pn [symmetric]] h3 pn by simp
qed

text \<open>
  The claim as stated fails: at \<open>A\<close> with only \<open>C\<close> unvisited, the one candidate
  \<open>C\<close> has weight 0 and the only neighbour \<open>B\<close> is visited; the draw is among the
  candidates \<open>[C]\<close>, not among the neighbours \<open>[B]\<close>, and the next node is \<open>C\<close>.
\<close>

theorem next_draw_zero_weights_counterexample:
  "attraction_loop aco3 A 0 (possible_next (cities aco3) A [C]) [] 0 = Inr ([0], 0) \<and>
   neighbors (cities aco3) A = [B] \<and>
   possible_next (cities aco3) A [C] = [C] \<and>
   next_draw aco3 A [C] = Inr (Choices [C] [1]) \<and>
   next_draw aco3 A [C] \<noteq> Inr (Choice [B]) \<and>
   select_next aco3 0 A [C] = Inr C"
  by (simp add: select_next_def next_draw_def calculate_probabilities_def possible_next_def
      choices_def route_distance_def Let_def ex_defs)

lemma choice_mem: "choice seq r = Inr x \<Longrightarrow> x \<in> set seq"
  by (auto simp: choice_def split: if_splits)

text \<open>
  In the exact arithmetic of this model, when no edge has weight 0 and the shortest-path
  query finds a path between any two nodes, no pass raises and \<open>ant_tour\<close> returns a
  route.
\<close>

lemma attraction_loop_ok:
  "set cs \<subseteq> set (nodes (cities s)) \<Longrightarrow>
   \<forall>city\<in>set cs. has_edge (cities s) current city \<longrightarrow> get_weight (cities s) current city \<noteq> 0 \<Longrightarrow>
   \<exists>ps' tot'. attraction_loop s current ci cs ps tot = Inr (ps', tot')"
proof (induction cs arbitrary: ps tot)
  case Nil
  then show ?case by simp
next
  case (Cons city cs)
  from Cons.prems(1) obtain i where i: "node_to_idx (cities s) city = Some i"
    using node_to_idx_dom [of "cities s" city] by auto
  have sub: "set cs \<subseteq> set (nodes (cities s))" using Cons.prems(1) by simp
  have w: "\<forall>c\<in>set cs. has_edge (cities s) current c \<longrightarrow> get_weight (cities s) current c \<noteq> 0"
    using Cons.prems(2) by simp
  have d: "\<exists>q. div_dist 1 (route_distance (cities s) [current, city]) = Inr q"
    using Cons.prems(2) by (simp add: route_distance_pair)
  then obtain q where q: "div_dist 1 (route_distance (cities s) [current, city]) = Inr q" ..
  show ?case
    using Cons.IH [OF sub w] by (simp add: i q Let_def)
qed

lemma sum_list_divide: "sum_list (map (\<lambda>p. p / c) ps) = sum_list ps / (c::real)"
  by (induction ps) (simp_all add: add_divide_distrib)

lemma calculate_probabilities_ok:
  assumes "current \<in> set (nodes (cities s))" and "set pn \<subseteq> set (nodes (cities s))"
    and "\<forall>city\<in>set pn. has_edge (cities s) current city \<longrightarrow> get_weight (cities s) current city \<noteq> 0"
    and "pn \<noteq> []"
  shows "\<exists>ps. calculate_probabilities s current pn = Inr ps \<and> length ps = length pn \<and>
              sum_list ps = 1"
proof -
  from assms(1) obtain i where i: "node_to_idx (cities s) current = Some i"
    using node_to_idx_dom [of "cities s" current] by auto
  from attraction_loop_ok [OF assms(2,3)] obtain ps tot where
    al: "attraction_loop s current i pn [] 0 = Inr (ps, tot)" by blast
  from attraction_loop_append [OF al] have tot: "tot = sum_list ps" by simp
  from attraction_loop_length [OF al] have len: "length ps = length pn" by simp
  show ?thesis
  proof (cases "tot = 0")
    case True
    then show ?thesis
      using assms(4) by (simp add: calculate_probabilities_def i al sum_list_replicate)
  next
    case False
    then show ?thesis
      using assms(4) tot len by (simp add: calculate_probabilities_def i al sum_list_divide)
  qed
qed

lemma choices_ok:
  assumes "length weights = length population" and "0 < sum_list weights"
  shows "\<exists>x. choices population weights r = Inr x"
proof -
  have "\<exists>w\<in>set weights. 0 < w"
  proof (rule ccontr)
    assume "\<not> (\<exists>w\<in>set weights. 0 < w)"
    then have "\<forall>w\<in>set weights. w \<le> 0" by auto
    then have "sum_list weights \<le> 0" by (induction weights) auto
    with assms(2) show False by simp
  qed
  then obtain j where j: "j < length weights" "0 < weights ! j"
    by (auto simp: in_set_conv_nth)
  then have "(population ! j, weights ! j) \<in> set (zip population weights)"
    using assms(1) by (auto simp: set_zip)
  then have "(population ! j, weights ! j) \<in> set (filter (\<lambda>(x, w). 0 < w) (zip population weights))"
    using j by simp
  then have "filter (\<lambda>(x, w). 0 < w) (zip population weights) \<noteq> []"
    by (metis empty_iff empty_set)
  then show ?thesis
    using assms by (simp add: choices_def Let_def)
qed

lemma select_next_ok:
  assumes "current \<in> set (nodes (cities s))" and "set unvisited \<subseteq> set (nodes (cities s))"
    and "\<forall>u v. has_edge (cities s) u v \<longrightarrow> get_weight (cities s) u v \<noteq> 0"
    and "unvisited \<noteq> []"
  shows "\<exists>x. select_next s r current unvisited = Inr x"
proof -
  let ?pn = "possible_next (cities s) current unvisited"
  have sub: "set ?pn \<subseteq> set (nodes (cities s))"
    using possible_next_subset [of "cities s" current unvisited] assms(2) by blast
  have ne: "?pn \<noteq> []" using assms(4) by (rule possible_next_nonempty)
  from calculate_probabilities_ok [OF assms(1) sub _ ne] assms(3)
  obtain ps where ps: "calculate_probabilities s current ?pn = Inr ps"
    "length ps = length ?pn" "sum_list ps = 1" by blast
  have "ps \<noteq> []" using ps(2) ne by auto
  then have "next_draw s current unvisited = Inr (Choices ?pn ps)"
    using ps(1) by (simp add: next_draw_def Let_def)
  moreover have "\<exists>x. choices ?pn ps r = Inr x"
    using ps by (intro choices_ok) simp_all
  ultimately show ?thesis
    by (simp add: select_next_def)
qed

lemma tour_step_ok:
  assumes "current \<in> set (nodes (cities s))" and "set unvisited \<subseteq> set (nodes (cities s))"
    and "\<forall>u v. has_edge (cities s) u v \<longrightarrow> get_weight (cities s) u v \<noteq> 0"
    and "\<forall>u\<in>set (nodes (cities s)). \<forall>v\<in>set (nodes (cities s)). shortest_path s u v \<noteq> None"
    and "unvisited \<noteq> []"
  shows "\<exists>c r u. tour_step s rn current route unvisited = Inr (c, r, u)"
proof -
  from select_next_ok [OF assms(1,2,3,5)] obtain x where
    x: "select_next s rn current unvisited = Inr x" by blast
  have "x \<in> set unvisited" using select_next_unvisited [OF assms(5) x] .
  then have "x \<in> set (nodes (cities s))" using assms(2) by blast
  then have "shortest_path s current x \<noteq> None" using assms(1,4) by blast
  then show ?thesis
    by (auto simp: tour_step_def x)
qed

lemma tour_loop_ok:
  "current \<in> set (nodes (cities s)) \<Longrightarrow> set unvisited \<subseteq> set (nodes (cities s)) \<Longrightarrow>
   \<forall>u v. has_edge (cities s) u v \<longrightarrow> get_weight (cities s) u v \<noteq> 0 \<Longrightarrow>
   \<forall>u\<in>set (nodes (cities s)). \<forall>v\<in>set (nodes (cities s)). shortest_path s u v \<noteq> None \<Longrightarrow>
   \<exists>route' k'. tour_loop s rnd k current route unvisited = Inr (route', k')"
proof (induction s rnd k current route unvisited rule: tour_loop.induct)
  case (1 s rnd k current route unvisited)
  show ?case
  proof (cases "unvisited = []")
    case True
    then show ?thesis by simp
  next
    case False
    from tour_step_ok [OF "1.prems" False] obtain c r u where
      st: "tour_step s (rnd k) current route unvisited = Inr (c, r, u)" by blast
    from tour_step_unvisited [OF False st] have c: "c \<in> set unvisited"
      and u: "u = removeAll c unvisited" by simp_all
    have c': "c \<in> set (nodes (cities s))" using c "1.prems"(2) by blast
    have u': "set u \<subseteq> set (nodes (cities s))" using u "1.prems"(2) by auto
    from "1.IH" [OF False st refl refl c' u' "1.prems"(3,4)]
    show ?thesis using False st by simp
  qed
qed

lemma ant_tour_ok:
  assumes "\<forall>u v. has_edge (cities s) u v \<longrightarrow> get_weight (cities s) u v \<noteq> 0"
    and "\<forall>u\<in>set (nodes (cities s)). \<forall>v\<in>set (nodes (cities s)). shortest_path s u v \<noteq> None"
  shows "\<exists>route k'. ant_tour s rnd k = Inr (route, k')"
proof (cases "remdups (nodes (cities s)) = []")
  case True
  then show ?thesis by (simp add: ant_tour_def)
next
  case False
  let ?u = "remdups (nodes (cities s))"
  from False obtain c where c: "choice ?u (rnd k) = Inr c"
    by (auto simp: choice_def)
  have cm: "c \<in> set (nodes (cities s))" using choice_mem [OF c] by simp
  have sub: "set (removeAll c ?u) \<subseteq> set (nodes (cities s))" by auto
  from tour_loop_ok [OF cm sub assms]
  show ?thesis using False c by (simp add: ant_tour_def Let_def)
qed


lemma tour_step_distinct:
  assumes "unvisited \<noteq> []" and "distinct unvisited"
    and "tour_step s r current route unvisited = Inr (current', route', unvisited')"
  shows "distinct unvisited' \<and> Suc (length unvisited') = length unvisited"
proof -
  from tour_step_unvisited [OF assms(1,3)] have c: "current' \<in> set unvisited"
    and u: "unvisited' = removeAll current' unvisited" by simp_all
  have "length unvisited' = length unvisited - 1"
    using assms(2) c u by (simp add: distinct_remove1_removeAll [symmetric] length_remove1)
  moreover have "0 < length unvisited" using assms(1) by simp
  ultimately show ?thesis
    using assms(2) u by (simp add: distinct_removeAll)
qed

lemma tour_passes_inv:
  "distinct unvisited \<Longrightarrow> n \<le> length unvisited \<Longrightarrow>
   tour_passes s rnd n k current route unvisited = Inr (k', current', route', unvisited') \<Longrightarrow>
   k' = k + n \<and> length unvisited' = length unvisited - n"
proof (induction n arbitrary: k current route unvisited)
  case 0
  then show ?case by simp
next
  case (Suc n)
  from Suc.prems(2) have ne: "unvisited \<noteq> []" by auto
  from Suc.prems(3) obtain c1 r1 u1 where
    st: "tour_step s (rnd k) current route unvisited = Inr (c1, r1, u1)" and
    rec: "tour_passes s rnd n (Suc k) c1 r1 u1 = Inr (k', current', route', unvisited')"
    by (auto split: sum.splits)
  from tour_step_distinct [OF ne Suc.prems(1) st] have
    d: "distinct u1" and l: "Suc (length u1) = length unvisited" by simp_all
  have n: "n \<le> length u1" using Suc.prems(2) l by simp
  from Suc.IH [OF d n rec] l show ?case by simp
qed

lemma tour_loop_passes:
  "distinct unvisited \<Longrightarrow>
   tour_loop s rnd k current route unvisited =
     (case tour_passes s rnd (length unvisited) k current route unvisited of
        Inl e \<Rightarrow> Inl e
      | Inr (k', current', route', unvisited') \<Rightarrow> Inr (route', k'))"
proof (induction "length unvisited" arbitrary: k current route unvisited)
  case 0
  then have "unvisited = []" by simp
  then show ?case by (subst tour_loop.simps) (simp del: tour_loop.simps)
next
  case (Suc m)
  then have ne: "unvisited \<noteq> []" by auto
  show ?case
  proof (cases "tour_step s (rnd k) current route unvisited")
    case (Inl e)
    have "tour_loop s rnd k current route unvisited = Inl e"
      using ne Inl by (subst tour_loop.simps) (simp del: tour_loop.simps)
    then show ?thesis
      using Inl Suc.hyps(2) [symmetric] by (simp del: tour_loop.simps)
  next
    case (Inr res)
    obtain c1 r1 u1 where res: "res = (c1, r1, u1)" by (cases res)
    from tour_step_distinct [OF ne Suc.prems] Inr res have
      d: "distinct u1" and l: "Suc (length u1) = length unvisited" by simp_all
    have m: "m = length u1" using l Suc.hyps(2) by simp
    have "tour_loop s rnd k current route unvisited = tour_loop s rnd (Suc k) c1 r1 u1"
      using ne Inr res by (subst tour_loop.simps) (simp del: tour_loop.simps)
    also have "\<dots> = (case tour_passes s rnd (length u1) (Suc k) c1 r1 u1 of
        Inl e \<Rightarrow> Inl e
      | Inr (k', current', route', unvisited') \<Rightarrow> Inr (route', k'))"
      by (rule Suc.hyps(1) [OF m d])
    also have "\<dots> = (case tour_passes s rnd (length unvisited) k current route unvisited of
        Inl e \<Rightarrow> Inl e
      | Inr (k', current', route', unvisited') \<Rightarrow> Inr (route', k'))"
      using Inr res by (simp add: l [symmetric] del: tour_loop.simps)
    finally show ?thesis .
  qed
qed

lemma ant_tour_passes_eq:
  "ant_tour s rnd k =
     (if nodes (cities s) = [] then Inr ([], k)
      else case choice (remdups (nodes (cities s))) (rnd k) of
             Inl e \<Rightarrow> Inl e
           | Inr current \<Rightarrow>
               (case tour_passes s rnd (card (set (nodes (cities s))) - 1) (Suc k) current
                       [current] (removeAll current (remdups (nodes (cities s)))) of
                  Inl e \<Rightarrow> Inl e
                | Inr (k', current', route', unvisited') \<Rightarrow> Inr (route', k')))"
proof (cases "nodes (cities s) = []")
  case True
  then show ?thesis by (simp add: ant_tour_def)
next
  case False
  let ?u = "remdups (nodes (cities s))"
  have ne: "?u \<noteq> []" using False by simp
  show ?thesis
  proof (cases "choice ?u (rnd k)")
    case (Inl e)
    then show ?thesis using False ne by (simp add: ant_tour_def Let_def del: tour_loop.simps)
  next
    case (Inr c)
    have cm: "c \<in> set ?u" using Inr by (rule choice_mem)
    have "length (removeAll c ?u) = length ?u - 1"
      using cm by (simp add: distinct_remove1_removeAll [symmetric] length_remove1)
    then have len: "length (removeAll c ?u) = card (set (nodes (cities s))) - 1"
      by (simp add: length_remdups_card_conv)
    have d: "distinct (removeAll c ?u)" by (simp add: distinct_removeAll)
    show ?thesis
      using False ne Inr tour_loop_passes [OF d, of s rnd "Suc k" c "[c]"]
      by (simp add: ant_tour_def Let_def len del: tour_loop.simps)
  qed
qed

text \<open>
  C9, as amended. \<open>ant_tour\<close> terminates on every finite graph: the recursion
  \<open>tour_loop\<close> is the loop \<open>while unvisited\<close>, and its termination proof rests on the
  facts below. Whenever the loop body runs, the candidates are a nonempty sublist of the
  unvisited nodes, the list of probabilities is not empty, so the draw is never the
  uniform one among the neighbours, the node drawn is unvisited, and a pass that
  completes removes exactly that node from \<open>unvisited\<close>. So the loop is exactly as many
  passes of its body as there are unvisited nodes, unless a pass raises: its result is
  the result of \<open>tour_passes\<close> for that number, after fewer passes \<open>unvisited\<close> is not
  yet empty, and \<open>ant_tour\<close> is the draw of the start node followed by \<open>N - 1\<close> passes.
  A pass can raise (\<open>ZeroDivisionError\<close> on an edge of weight 0, \<open>NetworkXNoPath\<close> when
  the node drawn cannot be reached); the loop then ends there, before \<open>N - 1\<close> passes.
\<close>

theorem ant_tour_passes:
  "(unvisited \<noteq> [] \<longrightarrow>
      possible_next (cities s) current unvisited \<noteq> [] \<and>
      set (possible_next (cities s) current unvisited) \<subseteq> set unvisited \<and>
      calculate_probabilities s current (possible_next (cities s) current unvisited) \<noteq> Inr [] \<and>
      (\<forall>seq. next_draw s current unvisited \<noteq> Inr (Choice seq)) \<and>
      (\<forall>r x. select_next s r current unvisited = Inr x \<longrightarrow> x \<in> set unvisited) \<and>
      (\<forall>r current' route' unvisited'.
          distinct unvisited \<and>
          tour_step s r current route unvisited = Inr (current', route', unvisited') \<longrightarrow>
          unvisited' = removeAll current' unvisited \<and>
          Suc (length unvisited') = length unvisited)) \<and>
   (distinct unvisited \<longrightarrow>
      tour_loop s rnd k current route unvisited =
        (case tour_passes s rnd (length unvisited) k current route unvisited of
           Inl e \<Rightarrow> Inl e
         | Inr (k', current', route', unvisited') \<Rightarrow> Inr (route', k')) \<and>
      (\<forall>n k' current' route' unvisited'.
          n \<le> length unvisited \<and>
          tour_passes s rnd n k current route unvisited =
            Inr (k', current', route', unvisited') \<longrightarrow>
          k' = k + n \<and> length unvisited' = length unvisited - n)) \<and>
   ant_tour s rnd k =
     (if nodes (cities s) = [] then Inr ([], k)
      else case choice (remdups (nodes (cities s))) (rnd k) of
             Inl e \<Rightarrow> Inl e
           | Inr current \<Rightarrow>
               (case tour_passes s rnd (card (set (nodes (cities s))) - 1) (Suc k) current
                       [current] (removeAll current (remdups (nodes (cities s)))) of
                  Inl e \<Rightarrow> Inl e
                | Inr (k', current', route', unvisited') \<Rightarrow> Inr (route', k')))"
proof (intro conjI impI allI)
  assume ne: "unvisited \<noteq> []"
  show "possible_next (cities s) current unvisited \<noteq> []"
    using ne by (rule possible_next_nonempty)
  show "set (possible_next (cities s) current unvisited) \<subseteq> set unvisited"
    by (rule possible_next_subset)
  show "calculate_probabilities s current (possible_next (cities s) current unvisited) \<noteq> Inr []"
    using calculate_probabilities_length [of s current "possible_next (cities s) current unvisited" "[]"]
      possible_next_nonempty [OF ne, of "cities s" current] by auto
  show "next_draw s current unvisited \<noteq> Inr (Choice seq)" for seq
    using next_draw_Choices [OF ne, of s current "Choice seq"] by auto
  show "x \<in> set unvisited" if "select_next s r current unvisited = Inr x" for r x
    using select_next_unvisited [OF ne that] .
  fix r current' route' unvisited'
  assume a: "distinct unvisited \<and>
          tour_step s r current route unvisited = Inr (current', route', unvisited')"
  then have st: "tour_step s r current route unvisited = Inr (current', route', unvisited')"
    and d: "distinct unvisited" by simp_all
  from tour_step_unvisited [OF ne st]
  show "unvisited' = removeAll current' unvisited" by simp
  from tour_step_distinct [OF ne d st]
  show "Suc (length unvisited') = length unvisited" by simp
next
  assume "distinct unvisited"
  then show "tour_loop s rnd k current route unvisited =
        (case tour_passes s rnd (length unvisited) k current route unvisited of
           Inl e \<Rightarrow> Inl e
         | Inr (k', current', route', unvisited') \<Rightarrow> Inr (route', k'))"
    by (rule tour_loop_passes)
next
  fix n k' current' route' unvisited'
  assume d: "distinct unvisited"
    and a: "n \<le> length unvisited \<and>
          tour_passes s rnd n k current route unvisited =
            Inr (k', current', route', unvisited')"
  from a have n: "n \<le> length unvisited" and
    p: "tour_passes s rnd n k current route unvisited = Inr (k', current', route', unvisited')"
    by simp_all
  from tour_passes_inv [OF d n p]
  show "k' = k + n" and "length unvisited' = length unvisited - n" by simp_all
next
  show "ant_tour s rnd k =
     (if nodes (cities s) = [] then Inr ([], k)
      else case choice (remdups (nodes (cities s))) (rnd k) of
             Inl e \<Rightarrow> Inl e
           | Inr current \<Rightarrow>
               (case tour_passes s rnd (card (set (nodes (cities s))) - 1) (Suc k) current
                       [current] (removeAll current (remdups (nodes (cities s)))) of
                  Inl e \<Rightarrow> Inl e
                | Inr (k', current', route', unvisited') \<Rightarrow> Inr (route', k')))"
    by (rule ant_tour_passes_eq)
qed

theorem ant_tour_passes_witness:
  "possible_next (cities aco3) A [B, C] = [B] \<and>
   select_next aco3 0 A [B, C] = Inr B \<and>
   tour_passes aco3 (\<lambda>k. 0) (Suc (Suc 0)) (Suc 0) A [A] [B, C] = Inr (3, C, [A, B, C], []) \<and>
   tour_loop aco3 (\<lambda>k. 0) (Suc 0) A [A] [B, C] = Inr ([A, B, C], 3) \<and>
   ant_tour aco3 (\<lambda>k. 0) 0 = Inr ([A, B, C], 3)"
proof -
  have n: "card (set (nodes (cities aco3))) - 1 = Suc (Suc 0)"
    and ne: "(nodes (cities aco3) = []) = False"
    by (simp_all add: ex_defs)
  have pn: "possible_next (cities aco3) A [B, C] = [B]"
    by (simp add: possible_next_def ex_defs)
  have sel: "select_next aco3 0 A [B, C] = Inr B"
    by (simp add: tour_defs ex_defs)
  have ps: "tour_passes aco3 (\<lambda>k. 0) (Suc (Suc 0)) (Suc 0) A [A] [B, C] =
      Inr (3, C, [A, B, C], [])"
    by (simp add: tour_defs ex_defs)
  have ch: "choice (remdups (nodes (cities aco3))) 0 = Inr A"
    and rm: "removeAll A (remdups (nodes (cities aco3))) = [B, C]"
    by (simp_all add: choice_def ex_defs)
  have d: "distinct [B, C]" and len: "length [B, C] = Suc (Suc 0)" by simp_all
  note thm1 = ant_tour_passes [of "[B, C]" aco3 A "[A]" "\<lambda>k. 0" "Suc 0"]
  from thm1 have
    "distinct [B, C] \<longrightarrow>
      tour_loop aco3 (\<lambda>k. 0) (Suc 0) A [A] [B, C] =
        (case tour_passes aco3 (\<lambda>k. 0) (length [B, C]) (Suc 0) A [A] [B, C] of
           Inl e \<Rightarrow> Inl e
         | Inr (k', current', route', unvisited') \<Rightarrow> Inr (route', k')) \<and>
      (\<forall>n k' current' route' unvisited'.
          n \<le> length [B, C] \<and>
          tour_passes aco3 (\<lambda>k. 0) n (Suc 0) A [A] [B, C] =
            Inr (k', current', route', unvisited') \<longrightarrow>
          k' = Suc 0 + n \<and> length unvisited' = length [B, C] - n)"
    by (rule conjunct1 [OF conjunct2])
  with d have "tour_loop aco3 (\<lambda>k. 0) (Suc 0) A [A] [B, C] =
        (case tour_passes aco3 (\<lambda>k. 0) (length [B, C]) (Suc 0) A [A] [B, C] of
           Inl e \<Rightarrow> Inl e
         | Inr (k', current', route', unvisited') \<Rightarrow> Inr (route', k'))"
    by blast
  then have lp: "tour_loop aco3 (\<lambda>k. 0) (Suc 0) A [A] [B, C] = Inr ([A, B, C], 3)"
    by (simp only: len ps sum.case prod.case)
  note thm0 = ant_tour_passes [of "[B, C]" aco3 A "[A]" "\<lambda>k. 0" 0]
  from thm0 have "ant_tour aco3 (\<lambda>k. 0) 0 =
     (if nodes (cities aco3) = [] then Inr ([], 0)
      else case choice (remdups (nodes (cities aco3))) 0 of
             Inl e \<Rightarrow> Inl e
           | Inr current \<Rightarrow>
               (case tour_passes aco3 (\<lambda>k. 0) (card (set (nodes (cities aco3))) - 1) (Suc 0)
                       current [current] (removeAll current (remdups (nodes (cities aco3)))) of
                  Inl e \<Rightarrow> Inl e
                | Inr (k', current', route', unvisited') \<Rightarrow> Inr (route', k')))"
    by (rule conjunct2 [OF conjunct2])
  then have run: "ant_tour aco3 (\<lambda>k. 0) 0 = Inr ([A, B, C], 3)"
    by (simp only: ne if_False ch n rm ps sum.case prod.case)
  from pn sel ps lp run show ?thesis by blast
qed

text \<open>
  The claim as stated fails: on the graph of three nodes with the one edge from \<open>A\<close> to
  \<open>B\<close>, an ant that starts at \<open>B\<close> raises \<open>NetworkXNoPath\<close> in its first pass, so
  the loop does not run \<open>N - 1 = 2\<close> times.
\<close>

theorem ant_tour_passes_counterexample:
  "card (set (nodes (cities aco4))) = 3 \<and>
   tour_passes aco4 (\<lambda>k. 1) 1 1 B [B] [A, C] = Inl NetworkXNoPath \<and>
   ant_tour aco4 (\<lambda>k. 1) 0 = Inl NetworkXNoPath"
  by (simp add: tour_defs ex_defs)

subsection \<open>The archive, construct\_solution and run\_aco\<close>

lemma shift_update:
  assumes "i < length xs"
  shows "(if i < length xs - 1 then shift_right i xs else xs)[i := v] =
         take i xs @ v # drop i (butlast xs)"
proof (cases "i < length xs - 1")
  case True
  have t: "take (Suc i) xs = take i xs @ [xs ! i]"
    using assms by (simp add: take_Suc_conv_app_nth)
  have "(take i xs @ [xs ! i] @ drop i (butlast xs))[i := v] =
        take i xs @ ([xs ! i] @ drop i (butlast xs))[i - length (take i xs) := v]"
    using assms by (subst list_update_append) simp
  also have "\<dots> = take i xs @ v # drop i (butlast xs)"
    using assms by simp
  finally show ?thesis
    using True by (simp add: shift_right_def t)
next
  case False
  with assms have i: "Suc i = length xs" by simp
  have d: "drop i (butlast xs) = []" using i by simp
  have "xs[i := v] = take i xs @ v # drop (Suc i) xs"
    using assms by (rule upd_conv_take_nth_drop)
  then show ?thesis
    using False d i by simp
qed


lemma sorted_insert_at:
  assumes "sorted ds" and "i < length ds" and "\<forall>x\<in>set (take i ds). x \<le> d" and "d < ds ! i"
  shows "sorted (take i ds @ d # drop i (butlast ds))"
proof -
  have sub: "set (drop i (butlast ds)) \<subseteq> set (drop i ds)"
    by (metis butlast_conv_take drop_take set_take_subset)
  have "sorted (drop i ds)" using assms(1) by (rule sorted_wrt_drop)
  moreover have di: "drop i ds = ds ! i # drop (Suc i) ds"
    using assms(2) by (simp add: Cons_nth_drop_Suc)
  ultimately have "\<forall>y\<in>set (drop i ds). ds ! i \<le> y" by auto
  then have ge: "\<forall>y\<in>set (drop i (butlast ds)). d \<le> y"
    using sub assms(4) by fastforce
  have s1: "sorted (take i ds)" using assms(1) by (rule sorted_wrt_take)
  have s2: "sorted (drop i (butlast ds))"
    using assms(1) by (simp add: sorted_butlast)
  show ?thesis
    using s1 s2 ge assms(3) by (fastforce simp: sorted_append)
qed

lemma offer_loop_inv_pair:
  "length (fst best) = length (snd best) \<Longrightarrow> sorted (snd best) \<Longrightarrow>
   \<forall>x\<in>set (take i (snd best)). x \<le> d \<Longrightarrow>
   \<exists>rs' ds'. offer_loop route d i best = Inr (rs', ds') \<and>
      length rs' = length (snd best) \<and> length ds' = length (snd best) \<and> sorted ds' \<and>
      (snd best \<noteq> [] \<longrightarrow> hd ds' \<le> hd (snd best))"
proof (induction route d i best rule: offer_loop.induct)
  case (1 route d i rs ds)
  have p1: "length rs = length ds" and p2: "sorted ds"
    and p3: "\<forall>x\<in>set (take i ds). x \<le> d"
    using "1.prems" by simp_all
  show ?case
  proof (cases "i < length ds")
    case False
    then show ?thesis
      using p1 p2 by (subst offer_loop.simps) simp
  next
    case lt: True
    show ?thesis
    proof (cases "d < ds ! i")
      case True
      let ?ds0 = "if i < length ds - 1 then shift_right i ds else ds"
      let ?rs0 = "if i < length ds - 1 then shift_right i rs else rs"
      let ?ds1 = "take i ds @ d # drop i (butlast ds)"
      let ?rs1 = "take i rs @ route # drop i (butlast rs)"
      have lr: "i < length rs" using lt p1 by simp
      have lr0: "i < length ?rs0"
        using lr p1 by (simp add: length_shift_right)
      have d1: "?ds0[i := d] = ?ds1" using lt by (rule shift_update)
      have r1: "?rs0[i := route] = ?rs1"
        using shift_update [OF lr, of route] p1 by simp
      have step: "offer_loop route d i (rs, ds) = offer_loop route d (i + 1) (?rs1, ?ds1)"
        using lt True lr0 by (subst offer_loop.simps) (simp only: Let_def if_True d1 r1)
      have len: "length ?ds1 = length ds" "length ?rs1 = length ?ds1"
        using lt lr p1 by auto
      have srt: "sorted ?ds1"
        using p2 lt p3 True by (rule sorted_insert_at)
      have pre: "\<forall>x\<in>set (take (i + 1) ?ds1). x \<le> d"
        using lt p3 by auto
      have hd1: "hd ?ds1 \<le> hd ds"
      proof (cases i)
        case 0
        then show ?thesis using True lt by (simp add: hd_conv_nth)
      next
        case (Suc j)
        then show ?thesis using lt by (cases ds) auto
      qed
      have "\<exists>rs' ds'. offer_loop route d (i + 1) (?rs0[i := route], ?ds0[i := d]) = Inr (rs', ds') \<and>
          length rs' = length (snd (?rs0[i := route], ?ds0[i := d])) \<and>
          length ds' = length (snd (?rs0[i := route], ?ds0[i := d])) \<and> sorted ds' \<and>
          (snd (?rs0[i := route], ?ds0[i := d]) \<noteq> [] \<longrightarrow>
             hd ds' \<le> hd (snd (?rs0[i := route], ?ds0[i := d])))"
      proof (rule "1.IH"(1) [OF lt True refl refl lr0])
        show "length (fst (?rs0[i := route], ?ds0[i := d])) =
              length (snd (?rs0[i := route], ?ds0[i := d]))"
          unfolding fst_conv snd_conv d1 r1 by (rule len(2))
        show "sorted (snd (?rs0[i := route], ?ds0[i := d]))"
          unfolding snd_conv d1 by (rule srt)
        show "\<forall>x\<in>set (take (i + 1) (snd (?rs0[i := route], ?ds0[i := d]))). x \<le> d"
          unfolding snd_conv d1 by (rule pre)
      qed
      then obtain rs' ds' where
        r: "offer_loop route d (i + 1) (?rs1, ?ds1) = Inr (rs', ds')"
          "length rs' = length ?ds1" "length ds' = length ?ds1" "sorted ds'"
          "hd ds' \<le> hd ?ds1"
        unfolding snd_conv d1 r1 by auto
      show ?thesis
        using r hd1 len(1) step by auto
    next
      case False
      have step: "offer_loop route d i (rs, ds) = offer_loop route d (i + 1) (rs, ds)"
        using lt False by (subst offer_loop.simps) simp
      have "take (i + 1) ds = take i ds @ [ds ! i]"
        using lt by (simp add: take_Suc_conv_app_nth)
      then have pre: "\<forall>x\<in>set (take (i + 1) (snd (rs, ds))). x \<le> d"
        using p3 False by auto
      from "1.IH"(2) [OF lt False "1.prems"(1,2) pre] show ?thesis
        using step by simp
    qed
  qed
qed

lemma offer_inv:
  assumes "length rs = length ds" and "sorted ds"
  shows "\<exists>rs' ds'. offer_loop route d 0 (rs, ds) = Inr (rs', ds') \<and>
      length rs' = length ds \<and> length ds' = length ds \<and> sorted ds' \<and>
      (ds \<noteq> [] \<longrightarrow> hd ds' \<le> hd ds)"
  using offer_loop_inv_pair [of "(rs, ds)" 0 d route] assms by simp


lemma offer_all_inv:
  "length rs = length ds \<Longrightarrow> sorted ds \<Longrightarrow>
   \<exists>rs' ds'. offer_all offers (rs, ds) = Inr (rs', ds') \<and>
      length rs' = length ds \<and> length ds' = length ds \<and> sorted ds'"
proof (induction offers arbitrary: rs ds)
  case Nil
  then show ?case by simp
next
  case (Cons o1 offers)
  obtain route d where o1: "o1 = (route, d)" by (cases o1)
  from offer_inv [OF Cons.prems, of route d] obtain rs1 ds1 where
    r: "offer_loop route d 0 (rs, ds) = Inr (rs1, ds1)" "length rs1 = length ds"
      "length ds1 = length ds" "sorted ds1" by blast
  from Cons.IH [of rs1 ds1] r obtain rs' ds' where
    "offer_all offers (rs1, ds1) = Inr (rs', ds')" "length rs' = length ds1"
    "length ds' = length ds1" "sorted ds'" by auto
  then show ?case using r o1 by simp
qed

text \<open>
  C2. Starting from the initial archive of \<open>n\<close> entries of the empty route and infinity,
  any sequence of offers returns an archive whose list of routes and list of distances
  have \<open>n\<close> entries each, so never more than \<open>n\<close>, and whose distances are sorted in
  ascending order.
\<close>

theorem archive_bounded_sorted:
  "\<exists>rs ds. offer_all offers (replicate n [], replicate n Inf) = Inr (rs, ds) \<and>
      length rs = n \<and> length ds = n \<and> sorted ds"
proof -
  have "sorted (replicate n Inf)"
    by simp
  from offer_all_inv [OF _ this, of "replicate n []" offers] show ?thesis by simp
qed

lemma py_min_sorted: "sorted ds \<Longrightarrow> ds \<noteq> [] \<Longrightarrow> py_min ds = Inr (hd ds)"
proof -
  have f: "\<forall>y\<in>set rest. x \<le> y \<Longrightarrow> fold min rest x = x" for rest and x :: dist
    by (induction rest) (auto simp: min_absorb2)
  assume "sorted ds" "ds \<noteq> []"
  then show ?thesis
    by (cases ds) (auto simp: py_min_def f)
qed

lemma ants_loop_inv:
  "ants_loop m s rnd k (rs, ds) = Inr (s', k', rs', ds') \<Longrightarrow>
   length rs = length ds \<Longrightarrow> sorted ds \<Longrightarrow>
   length rs' = length ds \<and> length ds' = length ds \<and> sorted ds' \<and>
   (ds \<noteq> [] \<longrightarrow> hd ds' \<le> hd ds)"
proof (induction m arbitrary: s k rs ds)
  case 0
  then show ?case by simp
next
  case (Suc m)
  from Suc.prems(1) obtain route k1 where t: "ant_tour s rnd k = Inr (route, k1)"
    by (auto split: sum.splits)
  show ?case
  proof (cases "route = []")
    case True
    with Suc.prems(1) t have "ants_loop m s rnd k1 (rs, ds) = Inr (s', k', rs', ds')"
      by simp
    from Suc.IH [OF this Suc.prems(2,3)] show ?thesis .
  next
    case False
    let ?d = "route_distance (cities s) route"
    from offer_inv [OF Suc.prems(2,3), of route ?d] obtain rs1 ds1 where
      r: "offer_loop route ?d 0 (rs, ds) = Inr (rs1, ds1)" "length rs1 = length ds"
        "length ds1 = length ds" "sorted ds1" "ds \<noteq> [] \<longrightarrow> hd ds1 \<le> hd ds" by blast
    from Suc.prems(1) t False r(1) obtain s1 where
      rec: "ants_loop m s1 rnd k1 (rs1, ds1) = Inr (s', k', rs', ds')"
      by (auto simp: Let_def split: sum.splits)
    from Suc.IH [OF rec] r have
      "length rs' = length ds1 \<and> length ds' = length ds1 \<and> sorted ds' \<and>
       (ds1 \<noteq> [] \<longrightarrow> hd ds' \<le> hd ds1)" by simp
    then show ?thesis using r by auto
  qed
qed

lemma iterations_loop_inv:
  "iterations_loop it s rnd k (rs, ds) (mins, avgs) = Inr (s', k', (rs', ds'), (mins', avgs')) \<Longrightarrow>
   length rs = length ds \<Longrightarrow> sorted ds \<Longrightarrow> sorted (rev mins) \<Longrightarrow>
   \<forall>m\<in>set mins. hd ds \<le> m \<Longrightarrow>
   length rs' = length ds \<and> length ds' = length ds \<and> sorted ds' \<and> sorted (rev mins')"
proof (induction it arbitrary: s k rs ds mins avgs)
  case 0
  then show ?case by simp
next
  case (Suc it)
  from Suc.prems(1) obtain s1 k1 rs1 ds1 where
    a: "ants_loop (n_ants s) s rnd k (rs, ds) = Inr (s1, k1, rs1, ds1)"
    by (auto split: sum.splits)
  from ants_loop_inv [OF a Suc.prems(2,3)] have
    i1: "length rs1 = length ds" "length ds1 = length ds" "sorted ds1"
      "ds \<noteq> [] \<longrightarrow> hd ds1 \<le> hd ds" by simp_all
  from Suc.prems(1) a obtain m av where
    m: "py_min ds1 = Inr m" and
    rec: "iterations_loop it s1 rnd k1 (rs1, ds1) (mins @ [m], avgs @ [av]) =
            Inr (s', k', (rs', ds'), (mins', avgs'))"
    by (auto split: sum.splits if_splits)
  from m have ne1: "ds1 \<noteq> []" by (auto simp: py_min_def)
  then have ne: "ds \<noteq> []" using i1(2) by auto
  have mh: "m = hd ds1" using py_min_sorted [OF i1(3) ne1] m by simp
  have le: "\<forall>x\<in>set mins. m \<le> x"
    using Suc.prems(5) i1(4) ne mh by fastforce
  have s': "sorted (rev (mins @ [m]))"
    using Suc.prems(4) le by simp
  have b: "\<forall>x\<in>set (mins @ [m]). hd ds1 \<le> x"
    using le mh by auto
  from Suc.IH [OF rec _ i1(3) s' b] i1 show ?case by simp
qed

lemma update_pheromones_fields:
  "update_pheromones s route d x = Inr s' \<Longrightarrow> cities s' = cities s \<and> n_ants s' = n_ants s"
  by (auto simp: update_pheromones_def split: if_splits sum.splits)

lemma seed_loop_reinforce:
  "seed_loop s routes acc =
     (case reinforce_all s routes of
        Inl e \<Rightarrow> Inl e
      | Inr s' \<Rightarrow> Inr (s', acc @ map (route_distance (cities s)) routes))"
proof (induction routes arbitrary: s acc)
  case Nil
  then show ?case by simp
next
  case (Cons r routes)
  show ?case
  proof (cases "update_pheromones s r (route_distance (cities s) r) 10")
    case (Inl e)
    then show ?thesis by simp
  next
    case (Inr s1)
    from update_pheromones_fields [OF Inr] have c: "cities s1 = cities s" by simp
    show ?thesis
      using Inr by (simp add: Cons.IH c split: sum.splits)
  qed
qed

lemma reinforce_all_fields:
  "reinforce_all s routes = Inr s' \<Longrightarrow> cities s' = cities s \<and> n_ants s' = n_ants s"
proof (induction routes arbitrary: s)
  case Nil
  then show ?case by simp
next
  case (Cons r routes)
  then show ?case
    by (auto split: sum.splits dest!: update_pheromones_fields)
qed

lemma seed_archive_eq:
  "routes \<noteq> [] \<Longrightarrow>
   seed_archive s routes =
     (case reinforce_all s routes of
        Inl e \<Rightarrow> Inl e
      | Inr s' \<Rightarrow> Inr (s', take (n_ants s) routes,
                       take (n_ants s) (map (route_distance (cities s)) routes)))"
  by (auto simp: seed_archive_def seed_loop_reinforce split: sum.splits
           dest: reinforce_all_fields)

lemma tour_from_C:
  "rnd k = 2 \<Longrightarrow> ant_tour (aco3\<lparr>pheromone := ph\<rparr>) rnd k = Inr ([C, B, A], k + 3)"
  by (simp add: tour_defs ex_defs)

lemma tour_from_A:
  "rnd k = 0 \<Longrightarrow> ant_tour (aco3\<lparr>pheromone := ph\<rparr>) rnd k = Inr ([A, B, C], k + 3)"
  by (simp add: tour_defs ex_defs)


lemma update_pheromones_ok:
  assumes "set route \<subseteq> set (nodes (cities s))" and "div_dist rate d = Inr x"
  shows "\<exists>ph'. update_pheromones s route d rate = Inr (s\<lparr>pheromone := ph'\<rparr>)"
proof (cases "route = []")
  case True
  have "s = s\<lparr>pheromone := pheromone s\<rparr>" by simp
  then show ?thesis
    using True unfolding update_pheromones_def by (metis (full_types))
next
  case False
  from deposit_loop_ok [OF assms(2,1), of "[0..<length route]"
      "\<lambda>i j. pheromone s i j * evaporation s"]
  obtain ph' where "deposit_loop (cities s) route d rate [0..<length route]
      (\<lambda>i j. pheromone s i j * evaporation s) = Inr ph'" by auto
  then have "update_pheromones s route d rate = Inr (s\<lparr>pheromone := ph'\<rparr>)"
    using False by (simp add: update_pheromones_def)
  then show ?thesis by (rule exI [of _ ph'])
qed

lemma g3_distances:
  "route_distance g3 [C, B, A] = Fin 5" "route_distance g3 [A, B, C] = Fin 4"
  "route_distance g3 [A, B] = Fin 1"
  by (simp_all add: route_distance_def Let_def ex_defs)

lemma aco3_fields:
  "cities (aco3\<lparr>pheromone := ph\<rparr>) = g3" "n_ants (aco3\<lparr>pheromone := ph\<rparr>) = 2"
  "observer (aco3\<lparr>pheromone := ph\<rparr>)" "nodes g3 = [A, B, C]"
  by (simp_all add: aco3_def ACO_init_def g3_def nodes_def)

lemma aco3_update:
  assumes "set route \<subseteq> {A, B, C}" and "d \<noteq> 0"
  shows "\<exists>ph'. update_pheromones (aco3\<lparr>pheromone := ph\<rparr>) route (Fin d) rate =
           Inr (aco3\<lparr>pheromone := ph'\<rparr>)"
proof -
  have "set route \<subseteq> set (nodes (cities (aco3\<lparr>pheromone := ph\<rparr>)))"
    using assms(1) by (simp add: aco3_fields)
  moreover have "div_dist rate (Fin d) = Inr (rate / d)"
    using assms(2) by simp
  ultimately obtain ph' where
    "update_pheromones (aco3\<lparr>pheromone := ph\<rparr>) route (Fin d) rate =
       Inr (aco3\<lparr>pheromone := ph, pheromone := ph'\<rparr>)"
    using update_pheromones_ok by blast
  then show ?thesis by auto
qed

lemma ant_step:
  assumes "rnd k = 0 \<and> route = [A, B, C] \<and> d = 4 \<or> rnd k = 2 \<and> route = [C, B, A] \<and> d = 5"
    and "offer_loop route (Fin d) 0 best = Inr best'"
  shows "\<exists>ph'. ants_loop (Suc m) (aco3\<lparr>pheromone := ph\<rparr>) rnd k best =
           ants_loop m (aco3\<lparr>pheromone := ph'\<rparr>) rnd (k + 3) best'"
proof -
  have r: "set route \<subseteq> {A, B, C}" "d \<noteq> 0" "route \<noteq> []"
    "ant_tour (aco3\<lparr>pheromone := ph\<rparr>) rnd k = Inr (route, k + 3)"
    "route_distance g3 route = Fin d"
    using assms(1) by (auto simp: tour_from_A tour_from_C g3_distances)
  obtain ph' where "update_pheromones (aco3\<lparr>pheromone := ph\<rparr>) route (Fin d) 1 =
      Inr (aco3\<lparr>pheromone := ph'\<rparr>)"
    using aco3_update [OF r(1,2), of ph 1] by auto
  then have "ants_loop (Suc m) (aco3\<lparr>pheromone := ph\<rparr>) rnd k best =
      ants_loop m (aco3\<lparr>pheromone := ph'\<rparr>) rnd (k + 3) best'"
    using assms(2) r(3,4,5) by (simp add: aco3_fields)
  then show ?thesis by (rule exI [of _ ph'])
qed

lemma iteration_step:
  assumes "rnd k = 0 \<and> r1 = [A, B, C] \<and> d1 = 4 \<or> rnd k = 2 \<and> r1 = [C, B, A] \<and> d1 = 5"
    and "rnd (k + 3) = 0 \<and> r2 = [A, B, C] \<and> d2 = 4 \<or>
         rnd (k + 3) = 2 \<and> r2 = [C, B, A] \<and> d2 = 5"
    and "offer_loop r1 (Fin d1) 0 best = Inr best1"
    and "offer_loop r2 (Fin d2) 0 best1 = Inr (rs, ds)"
    and "rs \<noteq> []" and "py_min ds = Inr m" and "py_avg ds = Inr av"
  shows "\<exists>ph'. iterations_loop (Suc it) (aco3\<lparr>pheromone := ph\<rparr>) rnd k best (mins, avgs) =
           iterations_loop it (aco3\<lparr>pheromone := ph'\<rparr>) rnd (k + 6) (rs, ds)
             (mins @ [m], avgs @ [av])"
proof -
  from ant_step [where rnd = rnd and k = k and m = "Suc 0" and ph = ph, OF assms(1,3)]
  obtain ph1 where
    s1: "ants_loop (Suc (Suc 0)) (aco3\<lparr>pheromone := ph\<rparr>) rnd k best =
         ants_loop (Suc 0) (aco3\<lparr>pheromone := ph1\<rparr>) rnd (k + 3) best1" by blast
  from ant_step [where rnd = rnd and k = "k + 3" and m = 0 and ph = ph1, OF assms(2,4)]
  obtain ph2 where
    s2: "ants_loop (Suc 0) (aco3\<lparr>pheromone := ph1\<rparr>) rnd (k + 3) best1 =
         ants_loop 0 (aco3\<lparr>pheromone := ph2\<rparr>) rnd (k + 3 + 3) (rs, ds)" by blast
  have ne: "ds \<noteq> []" using assms(6) by (auto simp: py_min_def)
  have two: "n_ants (aco3\<lparr>pheromone := ph\<rparr>) = Suc (Suc 0)"
    by (simp add: aco3_fields)
  have "iterations_loop (Suc it) (aco3\<lparr>pheromone := ph\<rparr>) rnd k best (mins, avgs) =
        iterations_loop it (aco3\<lparr>pheromone := ph2\<rparr>) rnd (k + 6) (rs, ds)
          (mins @ [m], avgs @ [av])"
    unfolding iterations_loop.simps two s1 s2
    using assms(5,6,7) ne by (simp add: add.assoc)
  then show ?thesis by (rule exI [of _ ph2])
qed

lemma seed_two:
  assumes "set r1 \<subseteq> {A, B, C}" "set r2 \<subseteq> {A, B, C}"
    and "route_distance g3 r1 = Fin d1" "route_distance g3 r2 = Fin d2" "d1 \<noteq> 0" "d2 \<noteq> 0"
  shows "\<exists>ph'. seed_archive aco3 [r1, r2] = Inr (aco3\<lparr>pheromone := ph'\<rparr>, [r1, r2], [Fin d1, Fin d2])"
proof -
  have a0: "aco3 = aco3\<lparr>pheromone := pheromone aco3\<rparr>" by simp
  have c: "cities aco3 = g3" "n_ants aco3 = 2" by (simp_all add: aco3_def ACO_init_def)
  from aco3_update [OF assms(1,5), of "pheromone aco3" 10] obtain ph1 where
    u1: "update_pheromones aco3 r1 (Fin d1) 10 = Inr (aco3\<lparr>pheromone := ph1\<rparr>)" by auto
  from aco3_update [OF assms(2,6), of ph1 10] obtain ph2 where
    u2: "update_pheromones (aco3\<lparr>pheromone := ph1\<rparr>) r2 (Fin d2) 10 =
           Inr (aco3\<lparr>pheromone := ph2\<rparr>)" by auto
  have "reinforce_all aco3 [r1, r2] = Inr (aco3\<lparr>pheromone := ph2\<rparr>)"
    using u1 u2 assms(3,4) by (simp add: c aco3_fields)
  then have "seed_archive aco3 [r1, r2] = Inr (aco3\<lparr>pheromone := ph2\<rparr>, [r1, r2], [Fin d1, Fin d2])"
    using assms(3,4) by (simp add: seed_archive_eq c)
  then show ?thesis by (rule exI [of _ ph2])
qed

lemmas offer_defs = offer_loop.simps shift_right_def Let_def

lemma g3_offers:
  "offer_loop [C, B, A] (Fin 5) 0 ([[C, B, A], [A, B]], [Fin 5, Fin 1]) =
     Inr ([[C, B, A], [A, B]], [Fin 5, Fin 1])"
  "offer_loop [A, B, C] (Fin 4) 0 ([[C, B, A], [A, B]], [Fin 5, Fin 1]) =
     Inr ([[A, B, C], [A, B, C]], [Fin 4, Fin 4])"
  "offer_loop [A, B, C] (Fin 4) 0 ([[A, B, C], [A, B, C]], [Fin 4, Fin 4]) =
     Inr ([[A, B, C], [A, B, C]], [Fin 4, Fin 4])"
  "offer_loop [C, B, A] (Fin 5) 0 ([[], []], [Inf, Inf]) =
     Inr ([[C, B, A], [C, B, A]], [Fin 5, Fin 5])"
  "offer_loop [C, B, A] (Fin 5) 0 ([[C, B, A], [C, B, A]], [Fin 5, Fin 5]) =
     Inr ([[C, B, A], [C, B, A]], [Fin 5, Fin 5])"
  "offer_loop [A, B, C] (Fin 4) 0 ([[C, B, A], [C, B, A]], [Fin 5, Fin 5]) =
     Inr ([[A, B, C], [A, B, C]], [Fin 4, Fin 4])"
  "offer_loop [A, B, C] (Fin 4) 0 ([[], []], [Inf, Inf]) =
     Inr ([[A, B, C], [A, B, C]], [Fin 4, Fin 4])"
  by (simp_all add: offer_defs)


lemma g3_mins:
  "py_min [Fin 5, Fin 1] = Inr (Fin 1)" "py_avg [Fin 5, Fin 1] = Inr (Fin 3)"
  "py_min [Fin 4, Fin 4] = Inr (Fin 4)" "py_avg [Fin 4, Fin 4] = Inr (Fin 4)"
  "py_min [Fin 5, Fin 5] = Inr (Fin 5)" "py_avg [Fin 5, Fin 5] = Inr (Fin 5)"
  by (simp_all add: py_min_def py_avg_def)

lemma iterations_loop_2:
  "iterations_loop 2 s rnd k best history = iterations_loop (Suc (Suc 0)) s rnd k best history"
  by (simp only: numeral_2_eq_2)

lemma iterations_loop_1:
  "iterations_loop 1 s rnd k best history = iterations_loop (Suc 0) s rnd k best history"
  by simp

text \<open>
  C6. The claim: within a run, the minimum recorded at an iteration is at most the
  minimum recorded at the iteration before. The code breaks it in a run seeded with
  routes whose distances are not in ascending order: the seeding stores the distances in
  the order given, while the insertion loop, the callback and \<open>run_aco\<close> take entry 0 for
  the best. With the seeds \<open>[C, B, A]\<close> of distance 5 and \<open>[A, B]\<close> of distance 1 and
  two ants that both start at \<open>C\<close> in the first iteration and at \<open>A\<close> in the second:
  after the first iteration the archive is \<open>[5, 1]\<close>, entry 0 is 5 and the minimum
  recorded is 1; in the second iteration the route \<open>[A, B, C]\<close> of distance 4 is written
  over both entries, the route of distance 1 is lost, and the minimum recorded is 4.
\<close>

theorem history_min_seeded_run:
  "map_sum id fst
     (construct_solution aco3 (\<lambda>k. if k < 6 then 2 else 0) 0 1 [[C, B, A], [A, B]]) =
   Inr ([[C, B, A], [A, B]], [Fin 5, Fin 1], [Fin 1], [Fin 3]) \<and>
   map_sum id fst
     (construct_solution aco3 (\<lambda>k. if k < 6 then 2 else 0) 0 2 [[C, B, A], [A, B]]) =
   Inr ([[A, B, C], [A, B, C]], [Fin 4, Fin 4], [Fin 1, Fin 4], [Fin 3, Fin 4]) \<and>
   Fin 1 < Fin 4"
proof -
  let ?rnd = "\<lambda>k::nat. if k < 6 then 2 else (0::nat)"
  from seed_two [of "[C, B, A]" "[A, B]" 5 1] obtain ph0 where
    sd: "seed_archive aco3 [[C, B, A], [A, B]] =
           Inr (aco3\<lparr>pheromone := ph0\<rparr>, [[C, B, A], [A, B]], [Fin 5, Fin 1])"
    by (auto simp: g3_distances)
  from iteration_step [where rnd = ?rnd and k = 0 and it = 0 and ph = ph0
      and mins = "[]" and avgs = "[]", OF _ _ g3_offers(1) g3_offers(1) _ g3_mins(1,2)]
  obtain ph1' where
    i0: "iterations_loop (Suc 0) (aco3\<lparr>pheromone := ph0\<rparr>) ?rnd 0
            ([[C, B, A], [A, B]], [Fin 5, Fin 1]) ([], []) =
         iterations_loop 0 (aco3\<lparr>pheromone := ph1'\<rparr>) ?rnd 6
            ([[C, B, A], [A, B]], [Fin 5, Fin 1]) ([Fin 1], [Fin 3])"
    by auto
  from iteration_step [where rnd = ?rnd and k = 0 and it = "Suc 0" and ph = ph0
      and mins = "[]" and avgs = "[]", OF _ _ g3_offers(1) g3_offers(1) _ g3_mins(1,2)]
  obtain ph1 where
    i1: "iterations_loop (Suc (Suc 0)) (aco3\<lparr>pheromone := ph0\<rparr>) ?rnd 0
            ([[C, B, A], [A, B]], [Fin 5, Fin 1]) ([], []) =
         iterations_loop (Suc 0) (aco3\<lparr>pheromone := ph1\<rparr>) ?rnd 6
            ([[C, B, A], [A, B]], [Fin 5, Fin 1]) ([Fin 1], [Fin 3])"
    by auto
  from iteration_step [where rnd = ?rnd and k = 6 and it = 0 and ph = ph1
      and mins = "[Fin 1]" and avgs = "[Fin 3]", OF _ _ g3_offers(2) g3_offers(3) _ g3_mins(3,4)]
  obtain ph2 where
    i2: "iterations_loop (Suc 0) (aco3\<lparr>pheromone := ph1\<rparr>) ?rnd 6
            ([[C, B, A], [A, B]], [Fin 5, Fin 1]) ([Fin 1], [Fin 3]) =
         iterations_loop 0 (aco3\<lparr>pheromone := ph2\<rparr>) ?rnd 12
            ([[A, B, C], [A, B, C]], [Fin 4, Fin 4]) ([Fin 1, Fin 4], [Fin 3, Fin 4])"
    by auto
  have one: "construct_solution aco3 ?rnd 0 1 [[C, B, A], [A, B]] =
      Inr (([[C, B, A], [A, B]], [Fin 5, Fin 1], ([Fin 1], [Fin 3])),
           aco3\<lparr>pheromone := ph1'\<rparr>, 6)"
    unfolding construct_solution_def sd iterations_loop_1
    by (simp only: i0 iterations_loop.simps(1) sum.case prod.case)
  have two: "construct_solution aco3 ?rnd 0 2 [[C, B, A], [A, B]] =
      Inr (([[A, B, C], [A, B, C]], [Fin 4, Fin 4], ([Fin 1, Fin 4], [Fin 3, Fin 4])),
           aco3\<lparr>pheromone := ph2\<rparr>, 12)"
    unfolding construct_solution_def sd iterations_loop_2
    by (simp only: i1 i2 iterations_loop.simps(1) sum.case prod.case)
  have "map_sum id fst (construct_solution aco3 ?rnd 0 1 [[C, B, A], [A, B]]) =
      Inr ([[C, B, A], [A, B]], [Fin 5, Fin 1], [Fin 1], [Fin 3])"
    unfolding one by simp
  moreover have "map_sum id fst (construct_solution aco3 ?rnd 0 2 [[C, B, A], [A, B]]) =
      Inr ([[A, B, C], [A, B, C]], [Fin 4, Fin 4], [Fin 1, Fin 4], [Fin 3, Fin 4])"
    unfolding two by simp
  moreover have "Fin 1 < Fin 4" by simp
  ultimately show ?thesis by blast
qed

lemma aco3_reinforce_all:
  "\<forall>r\<in>set routes. set r \<subseteq> {A, B, C} \<and> (\<exists>d. route_distance g3 r = Fin d \<and> d \<noteq> 0) \<Longrightarrow>
   \<exists>ph'. reinforce_all (aco3\<lparr>pheromone := ph\<rparr>) routes = Inr (aco3\<lparr>pheromone := ph'\<rparr>)"
proof (induction routes arbitrary: ph)
  case Nil
  show ?case by (rule exI [of _ ph]) simp
next
  case (Cons r routes)
  then obtain d where d: "set r \<subseteq> {A, B, C}" "route_distance g3 r = Fin d" "d \<noteq> 0"
    by auto
  from aco3_update [OF d(1,3), of ph 10] obtain ph1 where
    u: "update_pheromones (aco3\<lparr>pheromone := ph\<rparr>) r (Fin d) 10 = Inr (aco3\<lparr>pheromone := ph1\<rparr>)"
    by auto
  from Cons.IH [of ph1] Cons.prems obtain ph2 where
    "reinforce_all (aco3\<lparr>pheromone := ph1\<rparr>) routes = Inr (aco3\<lparr>pheromone := ph2\<rparr>)"
    by auto
  then have "reinforce_all (aco3\<lparr>pheromone := ph\<rparr>) (r # routes) = Inr (aco3\<lparr>pheromone := ph2\<rparr>)"
    using u d(2) by (simp add: aco3_fields)
  then show ?case by (rule exI [of _ ph2])
qed

text \<open>
  C8, as amended. For supplied routes, the seeding reinforces the matrix once for each
  route, in order, with the deposit rate 10 and the route's own distance, and it raises
  what a reinforcement raises; the archive is then the supplied routes with their
  distances cut to at most \<open>n_ants\<close> entries, so it has \<open>min (len(routes), n_ants)\<close>
  entries and is not padded. Only when no route is supplied is the archive \<open>n_ants\<close>
  entries of the empty route and infinity.
\<close>

theorem seed_archive_truncates:
  "(routes \<noteq> [] \<longrightarrow>
      seed_archive s routes =
        (case reinforce_all s routes of
           Inl e \<Rightarrow> Inl e
         | Inr s' \<Rightarrow> Inr (s', take (n_ants s) routes,
                          take (n_ants s) (map (route_distance (cities s)) routes))) \<and>
      length (take (n_ants s) routes) = min (length routes) (n_ants s) \<and>
      length (take (n_ants s) (map (route_distance (cities s)) routes)) =
        min (length routes) (n_ants s)) \<and>
   (routes = [] \<longrightarrow>
      seed_archive s routes = Inr (s, replicate (n_ants s) [], replicate (n_ants s) Inf))"
  using seed_archive_eq [of routes s] by (simp add: seed_archive_def)

theorem seed_archive_truncates_witness:
  "\<exists>s'. reinforce_all aco3 [[C, B, A], [A, B], [A, B, C]] = Inr s' \<and>
        seed_archive aco3 [[C, B, A], [A, B], [A, B, C]] =
          Inr (s', [[C, B, A], [A, B]], [Fin 5, Fin 1])"
proof -
  have a0: "aco3\<lparr>pheromone := pheromone aco3\<rparr> = aco3" by simp
  have "\<forall>r\<in>set [[C, B, A], [A, B], [A, B, C]].
          set r \<subseteq> {A, B, C} \<and> (\<exists>d. route_distance g3 r = Fin d \<and> d \<noteq> 0)"
    by (simp add: g3_distances)
  from aco3_reinforce_all [OF this, of "pheromone aco3"] obtain ph' where
    r: "reinforce_all aco3 [[C, B, A], [A, B], [A, B, C]] = Inr (aco3\<lparr>pheromone := ph'\<rparr>)"
    unfolding a0 by blast
  have c: "cities aco3 = g3" "n_ants aco3 = 2" by (simp_all add: aco3_def ACO_init_def)
  have "seed_archive aco3 [[C, B, A], [A, B], [A, B, C]] =
          Inr (aco3\<lparr>pheromone := ph'\<rparr>, [[C, B, A], [A, B]], [Fin 5, Fin 1])"
    using seed_archive_truncates [of "[[C, B, A], [A, B], [A, B, C]]" aco3] r
    by (simp add: c g3_distances)
  with r show ?thesis by blast
qed

text \<open>
  The claim as stated fails: seeded with the one route \<open>[A, B, C]\<close>, a solver of two
  ants has an archive of one entry.
\<close>

theorem seed_archive_truncates_counterexample:
  "n_ants aco3 = 2 \<and>
   map_sum id snd (seed_archive aco3 [[A, B, C]]) = Inr ([[A, B, C]], [Fin 4])"
proof -
  have a0: "aco3\<lparr>pheromone := pheromone aco3\<rparr> = aco3" by simp
  have "\<forall>r\<in>set [[A, B, C]].
          set r \<subseteq> {A, B, C} \<and> (\<exists>d. route_distance g3 r = Fin d \<and> d \<noteq> 0)"
    by (simp add: g3_distances)
  from aco3_reinforce_all [OF this, of "pheromone aco3"] obtain ph' where
    r: "reinforce_all aco3 [[A, B, C]] = Inr (aco3\<lparr>pheromone := ph'\<rparr>)"
    unfolding a0 by blast
  have c: "cities aco3 = g3" "n_ants aco3 = 2" by (simp_all add: aco3_def ACO_init_def)
  show ?thesis
    using r by (simp add: seed_archive_eq c g3_distances)
qed

text \<open>
  The sibling path keeps the property. In a run whose archive is sorted before the first
  iteration, which is every run without initial routes and every run seeded with routes
  whose distances, cut to \<open>n_ants\<close> entries, are in ascending order, the minimum
  recorded at an iteration is at most the minimum recorded at the iteration before.
\<close>

lemma history_min_sorted_start:
  assumes "construct_solution s rnd k iterations routes = Inr ((rs, ds, (mins, avgs)), s', k')"
    and "routes = [] \<or> sorted (take (n_ants s) (map (route_distance (cities s)) routes))"
  shows "\<forall>i. Suc i < length mins \<longrightarrow> mins ! Suc i \<le> mins ! i"
proof -
  from assms(1) obtain s0 rs0 ds0 where
    sd: "seed_archive s routes = Inr (s0, rs0, ds0)" and
    it: "iterations_loop iterations s0 rnd k (rs0, ds0) ([], []) =
           Inr (s', k', (rs, ds), (mins, avgs))"
    by (auto simp: construct_solution_def split: sum.splits)
  have inv: "length rs0 = length ds0 \<and> sorted ds0"
  proof (cases "routes = []")
    case True
    with sd show ?thesis by (auto simp: seed_archive_def)
  next
    case False
    with assms(2) have "sorted (take (n_ants s) (map (route_distance (cities s)) routes))"
      by simp
    then show ?thesis
      using sd seed_archive_eq [OF False, of s] by (auto split: sum.splits)
  qed
  from iterations_loop_inv [OF it] inv have "sorted (rev mins)" by simp
  then show ?thesis
    by (auto intro: sorted_rev_nth_mono)
qed

lemma history_min_unseeded_run:
  "map_sum id (fst \<circ> snd \<circ> snd \<circ> fst)
     (construct_solution aco3 (\<lambda>k. if k < 6 then 2 else 0) 0 2 []) = Inr [Fin 5, Fin 4] \<and>
   [Fin 5, Fin 4] ! Suc 0 \<le> [Fin 5, Fin 4] ! 0"
proof -
  let ?rnd = "\<lambda>k::nat. if k < 6 then 2 else (0::nat)"
  have a0: "aco3 = aco3\<lparr>pheromone := pheromone aco3\<rparr>" by simp
  have sd: "seed_archive aco3 [] = Inr (aco3\<lparr>pheromone := pheromone aco3\<rparr>, [[], []], [Inf, Inf])"
    by (simp add: seed_archive_def aco3_def ACO_init_def numeral_2_eq_2)
  from iteration_step [where rnd = ?rnd and k = 0 and it = "Suc 0" and ph = "pheromone aco3"
      and mins = "[]" and avgs = "[]", OF _ _ g3_offers(4) g3_offers(5) _ g3_mins(5,6)]
  obtain ph1 where
    i1: "iterations_loop (Suc (Suc 0)) (aco3\<lparr>pheromone := pheromone aco3\<rparr>) ?rnd 0
            ([[], []], [Inf, Inf]) ([], []) =
         iterations_loop (Suc 0) (aco3\<lparr>pheromone := ph1\<rparr>) ?rnd 6
            ([[C, B, A], [C, B, A]], [Fin 5, Fin 5]) ([Fin 5], [Fin 5])"
    by auto
  from iteration_step [where rnd = ?rnd and k = 6 and it = 0 and ph = ph1
      and mins = "[Fin 5]" and avgs = "[Fin 5]", OF _ _ g3_offers(6) g3_offers(3) _ g3_mins(3,4)]
  obtain ph2 where
    i2: "iterations_loop (Suc 0) (aco3\<lparr>pheromone := ph1\<rparr>) ?rnd 6
            ([[C, B, A], [C, B, A]], [Fin 5, Fin 5]) ([Fin 5], [Fin 5]) =
         iterations_loop 0 (aco3\<lparr>pheromone := ph2\<rparr>) ?rnd 12
            ([[A, B, C], [A, B, C]], [Fin 4, Fin 4]) ([Fin 5, Fin 4], [Fin 5, Fin 4])"
    by auto
  have run: "construct_solution aco3 ?rnd 0 2 [] =
      Inr (([[A, B, C], [A, B, C]], [Fin 4, Fin 4], ([Fin 5, Fin 4], [Fin 5, Fin 4])),
           aco3\<lparr>pheromone := ph2\<rparr>, 12)"
    unfolding construct_solution_def sd iterations_loop_2
    by (simp only: i1 i2 iterations_loop.simps(1) sum.case prod.case)
  have "\<forall>i. Suc i < length [Fin 5, Fin 4] \<longrightarrow> [Fin 5, Fin 4] ! Suc i \<le> [Fin 5, Fin 4] ! i"
    using history_min_sorted_start [OF run] by simp
  then have "[Fin 5, Fin 4] ! Suc 0 \<le> [Fin 5, Fin 4] ! 0" by simp
  then show ?thesis using run by simp
qed





end
